theory Spec2Isabelle
  imports Complex_Main
begin

section \<open>JavaScript strings and numbers\<close>

text \<open>
  The client code of Ceagle (\<^verbatim>\<open>web/src/api.js\<close>) works on JavaScript strings and
  numbers. A string is modelled as a list of code units, each an 8-bit \<^typ>\<open>char\<close>:
  the model covers the strings whose code units are below 256. Numbers that the code
  keeps integral are \<^typ>\<open>int\<close>. The colour clusterer divides small integers and takes a
  square root (\<^verbatim>\<open>Math.round(x / n)\<close>, \<^verbatim>\<open>Math.sqrt\<close>): these are modelled over
  \<^typ>\<open>real\<close>. The upload scheduler multiplies a quotient of byte counts by 100 and
  rounds the product, and there the rounding of double-precision arithmetic decides
  the result: that quotient and product are modelled with \<open>toDouble\<close> below.
\<close>

text \<open>White space as \<^verbatim>\<open>String.prototype.trim\<close> and \<^verbatim>\<open>parseInt\<close> see it, among the
  code units below 256: TAB, LF, VT, FF, CR, SP and NBSP.\<close>

definition isWhiteSpace :: "char \<Rightarrow> bool" where
  "isWhiteSpace c = (of_char c \<in> {9, 10, 11, 12, 13, 32, 160 :: nat})"

definition trim :: "string \<Rightarrow> string" where
  "trim s = rev (dropWhile isWhiteSpace (rev (dropWhile isWhiteSpace s)))"

text \<open>\<^verbatim>\<open>toLowerCase\<close> on code units below 256: the letters A to Z and the
  Latin-1 capitals (0xC0 to 0xDE without the multiplication sign 0xD7) move up by 32,
  which sets bit 5.\<close>

definition isUpperCase :: "char \<Rightarrow> bool" where
  "isUpperCase c =
     (let n = (of_char c :: nat)
      in (65 \<le> n \<and> n \<le> 90) \<or> (192 \<le> n \<and> n \<le> 222 \<and> n \<noteq> 215))"

definition lowerChar :: "char \<Rightarrow> char" where
  "lowerChar c =
     (if isUpperCase c
      then (case c of Char b0 b1 b2 b3 b4 b5 b6 b7 \<Rightarrow> Char b0 b1 b2 b3 b4 True b6 b7)
      else c)"

definition toLowerCase :: "string \<Rightarrow> string" where
  "toLowerCase s = map lowerChar s"

text \<open>\<^verbatim>\<open>s.replace("#", "")\<close> with a string pattern removes the first occurrence only.\<close>

fun replaceFirst :: "char \<Rightarrow> string \<Rightarrow> string" where
  "replaceFirst c [] = []"
| "replaceFirst c (x # xs) = (if x = c then xs else x # replaceFirst c xs)"

definition slice :: "nat \<Rightarrow> nat \<Rightarrow> string \<Rightarrow> string" where
  "slice i j s = take (j - i) (drop i s)"

text \<open>\<^verbatim>\<open>parseInt(s, 16)\<close>: leading white space is skipped, one sign is read, a
  prefix \<^verbatim>\<open>0x\<close> or \<^verbatim>\<open>0X\<close> is dropped, and the longest run of hexadecimal digits is the
  value; what follows the run is ignored. No digit at all gives NaN, here \<open>None\<close>.
  (The result \<open>-0\<close> of the source is \<open>0\<close> here: nothing below tells them apart.)\<close>

definition hexDigitChars :: string where
  "hexDigitChars = ''0123456789abcdef''"

definition digitValue :: "char \<Rightarrow> nat option" where
  "digitValue c =
     map_of (zip (hexDigitChars @ ''ABCDEF'')
                 [0, 1, 2, 3, 4, 5, 6, 7, 8, 9, 10, 11, 12, 13, 14, 15, 10, 11, 12, 13, 14, 15]) c"

definition isHexDigit :: "char \<Rightarrow> bool" where
  "isHexDigit c = (digitValue c \<noteq> None)"

definition parseInt16 :: "string \<Rightarrow> int option" where
  "parseInt16 s =
     (let S = dropWhile isWhiteSpace s;
          sign = (if S \<noteq> [] \<and> hd S = CHR ''-'' then - 1 else 1 :: int);
          S1 = (if S \<noteq> [] \<and> (hd S = CHR ''+'' \<or> hd S = CHR ''-'') then tl S else S);
          S2 = (if take 2 S1 = ''0x'' \<or> take 2 S1 = ''0X'' then drop 2 S1 else S1);
          Z = takeWhile isHexDigit S2
      in if Z = [] then None
         else Some (sign * int (foldl (\<lambda>a c. 16 * a + the (digitValue c)) 0 Z)))"

text \<open>\<^verbatim>\<open>n.toString(16).padStart(2, "0")\<close> for an integral \<open>n\<close>: lowercase digits,
  a minus sign for a negative number, and zeros in front up to two characters.\<close>

fun hexDigits :: "nat \<Rightarrow> string" where
  "hexDigits n =
     (if n < 16 then [hexDigitChars ! n]
      else hexDigits (n div 16) @ [hexDigitChars ! (n mod 16)])"

definition toString16 :: "int \<Rightarrow> string" where
  "toString16 n = (if n < 0 then CHR ''-'' # hexDigits (nat (- n)) else hexDigits (nat n))"

definition padStart :: "nat \<Rightarrow> char \<Rightarrow> string \<Rightarrow> string" where
  "padStart n c s = replicate (n - length s) c @ s"

definition toHex :: "int \<Rightarrow> string" where
  "toHex n = padStart 2 (CHR ''0'') (toString16 n)"

text \<open>\<^verbatim>\<open>Math.round\<close> rounds to the nearest integer, a half towards plus infinity.\<close>

definition js_round :: "real \<Rightarrow> int" where
  "js_round x = \<lfloor>x + 1 / 2\<rfloor>"

text \<open>
  Double precision. A JavaScript number is a binary64 value of IEEE 754, and an
  arithmetic operation returns the value nearest to the exact result, a tie going to
  the value with the even significand. A significand has 53 bits: the values with a
  magnitude from \<open>2 ^ e\<close> up to \<open>2 ^ (e + 1)\<close> are the multiples of \<open>2 ^ (e - 52)\<close>.
  \<open>toDouble x\<close> is the value nearest to the real \<open>x\<close>. The exponent is not bounded in
  the model: it is the arithmetic of doubles for results that are 0 or of a magnitude
  between \<open>2 ^ (- 1022)\<close> and \<open>2 ^ 1024\<close>, where no result is subnormal or infinite.
\<close>

definition binaryExponent :: "real \<Rightarrow> int" where
  "binaryExponent x = \<lfloor>log 2 \<bar>x\<bar>\<rfloor>"

definition roundHalfEven :: "real \<Rightarrow> int" where
  "roundHalfEven x =
     (let n = \<lfloor>x\<rfloor>; r = x - of_int n
      in if r < 1 / 2 then n else if 1 / 2 < r then n + 1 else if even n then n else n + 1)"

definition toDouble :: "real \<Rightarrow> real" where
  "toDouble x =
     (if x = 0 then 0
      else (let ulp = 2 powi (binaryExponent x - 52)
            in of_int (roundHalfEven (x / ulp)) * ulp))"


section \<open>ColorClusterer: \<^verbatim>\<open>parseHexColor\<close>, \<^verbatim>\<open>colorDistance\<close>, \<^verbatim>\<open>buildColorGroups\<close>\<close>

text \<open>A parsed swatch is the object \<^verbatim>\<open>{ r, g, b, hex }\<close>; a group is
  \<^verbatim>\<open>{ r, g, b, count, hex }\<close>. The fields \<^verbatim>\<open>r\<close>, \<^verbatim>\<open>g\<close>, \<^verbatim>\<open>b\<close> are \<open>chan_r\<close>,
  \<open>chan_g\<close>, \<open>chan_b\<close> here.\<close>

record rgb =
  chan_r :: int
  chan_g :: int
  chan_b :: int
  hex :: string

record colorGroup = rgb +
  count :: int

text \<open>An asset record, as far as this core reads it. A \<^verbatim>\<open>format\<close> that is not a
  string is \<open>None\<close>; a missing \<^verbatim>\<open>colors\<close> is the empty list
  (\<^verbatim>\<open>asset.colors || []\<close>).\<close>

record asset =
  asset_id :: nat
  filename :: string
  colors :: "string list"
  format :: "string option"

definition parseHexColor :: "string \<Rightarrow> rgb option" where
  "parseHexColor v =
     (let normalized = replaceFirst (CHR ''#'') (trim v)
      in if length normalized \<noteq> 6 then None
         else (case (parseInt16 (slice 0 2 normalized),
                     parseInt16 (slice 2 4 normalized),
                     parseInt16 (slice 4 6 normalized)) of
                 (Some r, Some g, Some b) \<Rightarrow>
                   Some \<lparr>chan_r = r, chan_g = g, chan_b = b,
                         hex = CHR ''#'' # toLowerCase normalized\<rparr>
               | _ \<Rightarrow> None))"

definition colorDistance :: "'a rgb_scheme \<Rightarrow> 'b rgb_scheme \<Rightarrow> real" where
  "colorDistance a b =
     sqrt (real_of_int ((chan_r a - chan_r b)\<^sup>2 + (chan_g a - chan_g b)\<^sup>2
                        + (chan_b a - chan_b b)\<^sup>2))"

definition threshold :: real where
  "threshold = 28"

text \<open>\<^verbatim>\<open>groups.find(p)\<close> returns the first element that satisfies \<open>p\<close>, and the code
  then mutates that object in place: the model finds its index and updates the list
  there.\<close>

fun findIndex :: "('a \<Rightarrow> bool) \<Rightarrow> 'a list \<Rightarrow> nat option" where
  "findIndex P [] = None"
| "findIndex P (x # xs) = (if P x then Some 0 else map_option Suc (findIndex P xs))"

definition mergeInto :: "colorGroup \<Rightarrow> rgb \<Rightarrow> colorGroup" where
  "mergeInto found c =
     (let n = count found + 1;
          r' = js_round (real_of_int (chan_r found * (n - 1) + chan_r c) / real_of_int n);
          g' = js_round (real_of_int (chan_g found * (n - 1) + chan_g c) / real_of_int n);
          b' = js_round (real_of_int (chan_b found * (n - 1) + chan_b c) / real_of_int n)
      in \<lparr>chan_r = r', chan_g = g', chan_b = b',
          hex = CHR ''#'' # toHex r' @ toHex g' @ toHex b', count = n\<rparr>)"

definition newGroup :: "rgb \<Rightarrow> colorGroup" where
  "newGroup c =
     \<lparr>chan_r = chan_r c, chan_g = chan_g c, chan_b = chan_b c, hex = hex c, count = 1\<rparr>"

text \<open>The body of the inner \<^verbatim>\<open>forEach\<close>: one swatch against the groups so far.\<close>

definition addColor :: "colorGroup list \<Rightarrow> string \<Rightarrow> colorGroup list" where
  "addColor groups color =
     (case parseHexColor color of
        None \<Rightarrow> groups
      | Some c \<Rightarrow>
          (case findIndex (\<lambda>group. colorDistance group c \<le> threshold) groups of
             None \<Rightarrow> groups @ [newGroup c]
           | Some i \<Rightarrow> groups[i := mergeInto (groups ! i) c]))"

text \<open>The two nested \<^verbatim>\<open>forEach\<close> loops, and the final stable sort by descending
  count.\<close>

definition clusterColors :: "asset list \<Rightarrow> colorGroup list" where
  "clusterColors data = foldl addColor [] (concat (map colors data))"

definition buildColorGroups :: "asset list \<Rightarrow> colorGroup list" where
  "buildColorGroups data = sort_key (\<lambda>group. - count group) (clusterColors data)"

text \<open>The specification's wording of one step, for comparison with \<open>addColor\<close>: the
  swatch goes to the \<^emph>\<open>nearest\<close> group when that group is within the threshold.\<close>

fun nearestIndex :: "colorGroup list \<Rightarrow> rgb \<Rightarrow> nat option" where
  "nearestIndex [] c = None"
| "nearestIndex (g # gs) c =
     (case nearestIndex gs c of
        None \<Rightarrow> Some 0
      | Some j \<Rightarrow>
          if colorDistance g c \<le> colorDistance (gs ! j) c then Some 0 else Some (Suc j))"

definition specAddColorNearest :: "colorGroup list \<Rightarrow> string \<Rightarrow> colorGroup list" where
  "specAddColorNearest groups color =
     (case parseHexColor color of
        None \<Rightarrow> groups
      | Some c \<Rightarrow>
          (case nearestIndex groups c of
             None \<Rightarrow> groups @ [newGroup c]
           | Some i \<Rightarrow>
               if colorDistance (groups ! i) c \<le> threshold
               then groups[i := mergeInto (groups ! i) c]
               else groups @ [newGroup c]))"

text \<open>The specification's formula for the centroid after a merge, \<open>cnt\<close> being the
  count after the increment.\<close>

definition specIncrementalMean :: "int \<Rightarrow> int \<Rightarrow> int \<Rightarrow> int" where
  "specIncrementalMean oldCentroid cnt sample =
     js_round (real_of_int (oldCentroid * (cnt - 1) + sample) / real_of_int cnt)"

text \<open>The invariant of a group's \<open>hex\<close> field: the two-digit lowercase hexadecimal
  encoding of its channels, each channel a byte.\<close>

definition hexOfChannels :: "'a rgb_scheme \<Rightarrow> string" where
  "hexOfChannels g = CHR ''#'' # toHex (chan_r g) @ toHex (chan_g g) @ toHex (chan_b g)"

definition hexInvariant :: "colorGroup \<Rightarrow> bool" where
  "hexInvariant g \<longleftrightarrow>
     hex g = hexOfChannels g \<and> 0 \<le> chan_r g \<and> chan_r g \<le> 255
     \<and> 0 \<le> chan_g g \<and> chan_g g \<le> 255 \<and> 0 \<le> chan_b g \<and> chan_b g \<le> 255
     \<and> 1 \<le> count g"

text \<open>A swatch that, trimmed and without its first \<^verbatim>\<open>#\<close>, is six hexadecimal
  digits.\<close>

definition sixHexDigits :: "string \<Rightarrow> bool" where
  "sixHexDigits v \<longleftrightarrow>
     (let normalized = replaceFirst (CHR ''#'') (trim v)
      in length normalized = 6 \<and> list_all isHexDigit normalized)"


section \<open>UploadScheduler: the worker loop of \<^verbatim>\<open>handleUploadFiles\<close>\<close>

text \<open>A file of the batch: \<^verbatim>\<open>file.name\<close>, \<^verbatim>\<open>file.size\<close>, the \<^verbatim>\<open>relativePath\<close> the
  collector may have set (\<open>None\<close> when the property is absent) and the browser's
  \<^verbatim>\<open>webkitRelativePath\<close>.\<close>

record jsfile =
  file_name :: string
  file_size :: nat
  relativePath :: "string option"
  webkitRelativePath :: string

text \<open>\<^verbatim>\<open>files.reduce((sum, file) => sum + (file.size || 0), 0) || 1\<close>\<close>

definition totalBytes :: "jsfile list \<Rightarrow> int" where
  "totalBytes files =
     (let totalB = int (sum_list (map file_size files)) in if totalB = 0 then 1 else totalB)"

definition concurrency :: nat where
  "concurrency = 3"

text \<open>The message of \<^verbatim>\<open>new Error(...)\<close> in \<^verbatim>\<open>uploadAssetWithProgress\<close>, a literal of four
  Chinese characters, given by its UTF-8 bytes; nothing below depends on its value.\<close>

definition uploadFailedMessage :: string where
  "uploadFailedMessage =
     [CHR 0xE4, CHR 0xB8, CHR 0x8A, CHR 0xE4, CHR 0xBC, CHR 0xA0,
      CHR 0xE5, CHR 0xA4, CHR 0xB1, CHR 0xE8, CHR 0xB4, CHR 0xA5]"

text \<open>
  JavaScript runs the three workers on one thread: a worker runs until its next
  \<^verbatim>\<open>await\<close>, and resumes when the promise it waits for settles. A worker is therefore
  either not yet started, suspended at \<^verbatim>\<open>await uploadOne(file, currentIndex)\<close> for one
  file, or returned. The state between two suspension points is:
  the shared \<^verbatim>\<open>cursor\<close> and \<^verbatim>\<open>uploadedBytes\<close>, the \<^verbatim>\<open>lastLoaded\<close> variable of each
  \<^verbatim>\<open>uploadOne\<close> call (kept per file index), the React states \<^verbatim>\<open>uploadErrors\<close> and
  \<^verbatim>\<open>uploadProgress\<close> (\<open>percent\<close>, \<open>current\<close>, \<open>index\<close>), the workers, and the log
  \<open>sent\<close> of the file indices for which a request was sent, in order.
\<close>

datatype worker = NotStarted | Awaiting nat | Returned

record uploadState =
  cursor :: nat
  uploadedBytes :: int
  lastLoaded :: "int list"
  uploadErrors :: "string list"
  percent :: int
  current :: string
  index :: nat
  sent :: "nat list"
  workers :: "worker list"

text \<open>What the browser reports for the request of one file: a progress event of the
  upload (\<^verbatim>\<open>lengthComputable\<close>, \<^verbatim>\<open>loaded\<close>), the \<^verbatim>\<open>load\<close> event with the HTTP status
  and, when \<^verbatim>\<open>JSON.parse\<close> of the response throws, the message of that error, or the
  \<^verbatim>\<open>error\<close> event. The first argument is the index of the file in the batch.\<close>

datatype event =
    Progress nat bool int
  | Load nat nat "string option"
  | NetworkError nat

text \<open>One turn of the \<^verbatim>\<open>while (cursor < files.length)\<close> loop of worker \<open>w\<close>, up to
  its \<^verbatim>\<open>await\<close>: the worker reads the cursor, advances it and calls \<^verbatim>\<open>uploadOne\<close>, which
  sets \<open>current\<close> and \<open>index\<close>, starts \<open>lastLoaded\<close> at 0 and sends the request. When the
  cursor is exhausted the worker returns.\<close>

definition claimNext :: "jsfile list \<Rightarrow> nat \<Rightarrow> uploadState \<Rightarrow> uploadState" where
  "claimNext files w s =
     (if cursor s < length files
      then s\<lparr>current := file_name (files ! cursor s),
              index := cursor s + 1,
              lastLoaded := (lastLoaded s)[cursor s := 0],
              sent := sent s @ [cursor s],
              workers := (workers s)[w := Awaiting (cursor s)],
              cursor := cursor s + 1\<rparr>
      else s\<lparr>workers := (workers s)[w := Returned]\<rparr>)"

text \<open>The state when \<^verbatim>\<open>Array.from({ length: concurrency }).map(async ...)\<close> has run:
  each worker in turn has run up to its first \<^verbatim>\<open>await\<close>. \<^verbatim>\<open>handleUploadFiles\<close> returns
  before this point for an empty batch, so \<^verbatim>\<open>files[0].name\<close> is read of a non-empty
  list only.\<close>

definition initialState :: "jsfile list \<Rightarrow> uploadState" where
  "initialState files =
     \<lparr>cursor = 0, uploadedBytes = 0, lastLoaded = replicate (length files) 0,
      uploadErrors = [], percent = 0,
      current = (case files of [] \<Rightarrow> [] | file # _ \<Rightarrow> file_name file),
      index = 0, sent = [], workers = replicate concurrency NotStarted\<rparr>"

definition startRun :: "jsfile list \<Rightarrow> uploadState" where
  "startRun files = foldl (\<lambda>s w. claimNext files w s) (initialState files) [0..<concurrency]"

text \<open>The worker that waits for file \<open>i\<close>, if its request is in flight.\<close>

definition workerOf :: "uploadState \<Rightarrow> nat \<Rightarrow> nat option" where
  "workerOf s i = findIndex (\<lambda>w. w = Awaiting i) (workers s)"

definition errorLine :: "jsfile \<Rightarrow> string \<Rightarrow> string" where
  "errorLine file message = file_name file @ '': '' @ message"

text \<open>\<^verbatim>\<open>Math.min(100, Math.round((uploadedBytes / totalBytes) * 100))\<close>: the division
  gives a double and the multiplication by 100 gives a double; \<^verbatim>\<open>Math.round\<close> of a double
  is exact. (The byte counts are doubles as well, and exact below \<open>2 ^ 53\<close>.)\<close>

definition percentOf :: "int \<Rightarrow> int \<Rightarrow> int" where
  "percentOf uploaded totalB =
     min 100 (js_round (toDouble (toDouble (real_of_int uploaded / real_of_int totalB) * 100)))"

text \<open>The progress callback of \<^verbatim>\<open>uploadOne\<close>.\<close>

definition onProgress :: "jsfile list \<Rightarrow> nat \<Rightarrow> bool \<Rightarrow> int \<Rightarrow> uploadState \<Rightarrow> uploadState" where
  "onProgress files i lengthComputable loaded s =
     (if \<not> lengthComputable then s
      else
        (let delta = loaded - lastLoaded s ! i;
             uploaded = uploadedBytes s + delta
         in s\<lparr>lastLoaded := (lastLoaded s)[i := loaded],
               uploadedBytes := uploaded,
               percent := percentOf uploaded (totalBytes files)\<rparr>))"

text \<open>A failure that \<^verbatim>\<open>uploadAssetWithProgress\<close> reports through \<^verbatim>\<open>onError\<close> before it
  rejects (a status outside 200 to 299, or the \<^verbatim>\<open>error\<close> event) reaches \<^verbatim>\<open>setUploadErrors\<close>
  twice: once in the \<^verbatim>\<open>onError\<close> callback and once in the \<^verbatim>\<open>catch\<close> of \<^verbatim>\<open>uploadOne\<close>.
  A response that does not parse only rejects, and is recorded once.\<close>

definition failedViaOnError :: "jsfile list \<Rightarrow> nat \<Rightarrow> uploadState \<Rightarrow> uploadState" where
  "failedViaOnError files i s =
     s\<lparr>uploadErrors := uploadErrors s @ [errorLine (files ! i) uploadFailedMessage,
                                            errorLine (files ! i) uploadFailedMessage]\<rparr>"

definition failedByReject :: "jsfile list \<Rightarrow> nat \<Rightarrow> string \<Rightarrow> uploadState \<Rightarrow> uploadState" where
  "failedByReject files i message s =
     s\<lparr>uploadErrors := uploadErrors s @ [errorLine (files ! i) message]\<rparr>"

text \<open>One event of the browser. An event for a file that has no request in flight does
  not occur; the model leaves the state as it is. When the request of a file settles,
  its worker resumes, records a failure, and runs on to its next \<^verbatim>\<open>await\<close> or returns:
  no other event is handled in between.\<close>

definition step :: "jsfile list \<Rightarrow> uploadState \<Rightarrow> event \<Rightarrow> uploadState" where
  "step files s e =
     (case e of
        Progress i lengthComputable loaded \<Rightarrow>
          (case workerOf s i of
             None \<Rightarrow> s
           | Some w \<Rightarrow> onProgress files i lengthComputable loaded s)
      | Load i status parseError \<Rightarrow>
          (case workerOf s i of
             None \<Rightarrow> s
           | Some w \<Rightarrow>
               if 200 \<le> status \<and> status < 300
               then (case parseError of
                       None \<Rightarrow> claimNext files w s
                     | Some message \<Rightarrow> claimNext files w (failedByReject files i message s))
               else claimNext files w (failedViaOnError files i s))
      | NetworkError i \<Rightarrow>
          (case workerOf s i of
             None \<Rightarrow> s
           | Some w \<Rightarrow> claimNext files w (failedViaOnError files i s)))"

definition run :: "jsfile list \<Rightarrow> event list \<Rightarrow> uploadState" where
  "run files es = foldl (step files) (startRun files) es"

text \<open>\<^verbatim>\<open>Promise.all(workers)\<close> resolves when every worker has returned. (The code then
  reloads the folders and assets and resets the progress display; the model ends with
  the state at that point.)\<close>

definition settled :: "uploadState \<Rightarrow> bool" where
  "settled s = list_all (\<lambda>w. w = Returned) (workers s)"

definition inFlight :: "uploadState \<Rightarrow> nat list" where
  "inFlight s = concat (map (\<lambda>w. case w of Awaiting i \<Rightarrow> [i] | _ \<Rightarrow> []) (workers s))"

text \<open>An event that settles the request of a file.\<close>

fun settles :: "event \<Rightarrow> nat option" where
  "settles (Progress i lengthComputable loaded) = None"
| "settles (Load i status parseError) = Some i"
| "settles (NetworkError i) = Some i"

text \<open>The number of events of a trace that settle a request in flight, from state \<open>s\<close> on.\<close>

fun settlements :: "jsfile list \<Rightarrow> uploadState \<Rightarrow> event list \<Rightarrow> nat" where
  "settlements files s [] = 0"
| "settlements files s (e # es) =
     (case settles e of
        None \<Rightarrow> 0
      | Some i \<Rightarrow> (if workerOf s i = None then 0 else 1))
     + settlements files (step files s e) es"

text \<open>The progress events of a trace stay within the declared size of their file.\<close>

fun withinSize :: "jsfile list \<Rightarrow> event \<Rightarrow> bool" where
  "withinSize files (Progress i lengthComputable loaded) =
     (length files \<le> i \<or> (0 \<le> loaded \<and> loaded \<le> int (file_size (files ! i))))"
| "withinSize files (Load i status parseError) = True"
| "withinSize files (NetworkError i) = True"

text \<open>The specification's percentage, for comparison with the one \<open>onProgress\<close> reports.\<close>

definition specFloorPercent :: "int \<Rightarrow> int \<Rightarrow> int" where
  "specFloorPercent uploaded totalB = \<lfloor>real_of_int uploaded / real_of_int totalB * 100\<rfloor>"

text \<open>The exact percentage rounded to the nearest integer, a half upwards:
  \<open>\<lfloor>100 * uploaded / totalB + 1 / 2\<rfloor>\<close>, in integer arithmetic.\<close>

definition exactRoundedPercent :: "int \<Rightarrow> int \<Rightarrow> int" where
  "exactRoundedPercent uploaded totalB = (200 * uploaded + totalB) div (2 * totalB)"

text \<open>The exact percentage is halfway between two integers.\<close>

definition halfwayPercent :: "int \<Rightarrow> int \<Rightarrow> bool" where
  "halfwayPercent uploaded totalB \<longleftrightarrow> (200 * uploaded + totalB) mod (2 * totalB) = 0"

text \<open>The files not yet settled: those the cursor has not reached and those in flight.\<close>

definition pending :: "jsfile list \<Rightarrow> uploadState \<Rightarrow> nat" where
  "pending files s = (length files - cursor s) + length (inFlight s)"

text \<open>The invariant of the run, for the proofs below.\<close>

definition wellFormed :: "jsfile list \<Rightarrow> uploadState \<Rightarrow> bool" where
  "wellFormed files s \<longleftrightarrow>
     length (workers s) = concurrency \<and> length (lastLoaded s) = length files
     \<and> cursor s \<le> length files \<and> sent s = [0..<cursor s]
     \<and> NotStarted \<notin> set (workers s)
     \<and> (\<forall>i\<in>set (inFlight s). i < cursor s)
     \<and> (cursor s < length files \<longrightarrow> Returned \<notin> set (workers s))
     \<and> (\<forall>k<length files. cursor s \<le> k \<longrightarrow> lastLoaded s ! k = 0)
     \<and> uploadedBytes s = sum_list (lastLoaded s)"

text \<open>A file with a name and a size, and no path, for the examples.\<close>

definition plainFile :: "string \<Rightarrow> nat \<Rightarrow> jsfile" where
  "plainFile name bytes =
     \<lparr>file_name = name, file_size = bytes, relativePath = None, webkitRelativePath = []\<rparr>"

text \<open>Every file's last reported value is between 0 and its declared size.\<close>

definition loadedWithinSize :: "jsfile list \<Rightarrow> uploadState \<Rightarrow> bool" where
  "loadedWithinSize files s \<longleftrightarrow>
     length (lastLoaded s) = length files \<and>
     (\<forall>i<length files. 0 \<le> lastLoaded s ! i \<and> lastLoaded s ! i \<le> int (file_size (files ! i)))"



section \<open>DirectoryCollector: \<^verbatim>\<open>readAllEntries\<close>, \<^verbatim>\<open>traverseEntry\<close>, \<^verbatim>\<open>getFilesFromDataTransfer\<close>\<close>

text \<open>The outcome of an \<^verbatim>\<open>async\<close> function: its promise is fulfilled with a value,
  rejected with an error (here its message), or never settles.\<close>

datatype 'a promise = Fulfilled 'a | Rejected string | Pending

text \<open>
  An entry of the drop payload, with what the platform will answer when the code asks:
  \<^item> a file entry (\<^verbatim>\<open>isFile\<close>), with the outcome of \<^verbatim>\<open>entry.file(resolve, reject)\<close>: the
    file, or the error passed to \<^verbatim>\<open>reject\<close>;
  \<^item> a directory entry (\<^verbatim>\<open>isDirectory\<close>), with its name and the successive answers of its
    reader to \<^verbatim>\<open>readEntries\<close>: a batch of entries, or \<open>None\<close> when the read fails. The code
    passes no error callback, so a failed read never resolves its promise. A reader
    whose answers are used up answers with the empty batch;
  \<^item> an entry that is neither.
\<close>

datatype entry =
    FileEntry "string + jsfile"
  | DirectoryEntry string "entry list option list"
  | OtherEntry

text \<open>The \<^verbatim>\<open>while (true)\<close> loop of \<^verbatim>\<open>readAllEntries\<close>, with its accumulator \<^verbatim>\<open>entries\<close>.\<close>

fun readLoop :: "'a list \<Rightarrow> 'a list option list \<Rightarrow> 'a list promise" where
  "readLoop entries [] = Fulfilled entries"
| "readLoop entries (None # answers) = Pending"
| "readLoop entries (Some batch # answers) =
     (if batch = [] then Fulfilled entries else readLoop (entries @ batch) answers)"

definition readAllEntries :: "'a list option list \<Rightarrow> 'a list promise" where
  "readAllEntries reader = readLoop [] reader"

text \<open>What \<^verbatim>\<open>traverseEntry\<close> pushes for a file: the file, with \<^verbatim>\<open>relativePath\<close> set when
  the prefix is not empty.\<close>

definition withPrefix :: "string \<Rightarrow> jsfile \<Rightarrow> jsfile" where
  "withPrefix prefix file =
     (if prefix \<noteq> [] then file\<lparr>relativePath := Some (prefix @ file_name file)\<rparr> else file)"

text \<open>\<^verbatim>\<open>traverseEntry(entry, files, prefix)\<close> and its \<^verbatim>\<open>for (const child of entries)\<close>
  loop. The array \<^verbatim>\<open>files\<close> is passed and returned; an \<^verbatim>\<open>await\<close> on a rejected or
  pending promise ends the function with that outcome.\<close>

function traverseEntry :: "entry \<Rightarrow> jsfile list \<Rightarrow> string \<Rightarrow> jsfile list promise"
  and traverseChildren :: "entry list \<Rightarrow> jsfile list \<Rightarrow> string \<Rightarrow> jsfile list promise"
where
  "traverseEntry (FileEntry result) files prefix =
     (case result of
        Inl error \<Rightarrow> Rejected error
      | Inr file \<Rightarrow> Fulfilled (files @ [withPrefix prefix file]))"
| "traverseEntry (DirectoryEntry name reader) files prefix =
     (case readAllEntries reader of
        Fulfilled entries \<Rightarrow> traverseChildren entries files (prefix @ name @ ''/'')
      | Rejected error \<Rightarrow> Rejected error
      | Pending \<Rightarrow> Pending)"
| "traverseEntry OtherEntry files prefix = Fulfilled files"
| "traverseChildren [] files prefix = Fulfilled files"
| "traverseChildren (child # rest) files prefix =
     (case traverseEntry child files prefix of
        Fulfilled files' \<Rightarrow> traverseChildren rest files' prefix
      | Rejected error \<Rightarrow> Rejected error
      | Pending \<Rightarrow> Pending)"
  by pat_completeness auto

lemma readLoop_size:
  "readLoop (entries :: entry list) reader = Fulfilled result \<Longrightarrow>
     size_list size result
       \<le> size_list size entries + size_list (size_option (size_list size)) reader"
proof (induction entries reader rule: readLoop.induct)
  case (1 entries)
  then show ?case by simp
next
  case (2 entries answers)
  then show ?case by simp
next
  case (3 entries batch answers)
  then show ?case by (cases "batch = []") (auto simp: size_list_append)
qed

text \<open>The recursion ends: a directory's children are smaller than the directory.\<close>

definition traverseMeasure ::
    "(entry \<times> jsfile list \<times> string) + (entry list \<times> jsfile list \<times> string) \<Rightarrow> nat" where
  "traverseMeasure x =
     (case x of
        Inl (e, files, prefix) \<Rightarrow> size e
      | Inr (es, files, prefix) \<Rightarrow> size_list size es)"

termination traverseEntry
proof (relation "measure traverseMeasure")
  show "wf (measure traverseMeasure)"
    by simp
next
  fix name :: string and reader files and prefix :: string and entries :: "entry list"
  assume "readAllEntries reader = Fulfilled entries"
  then have "size_list size entries \<le> size_list (size_option (size_list size)) reader"
    using readLoop_size [of "[]" reader entries] by (simp add: readAllEntries_def)
  then show "(Inr (entries, files, prefix @ name @ ''/''),
              Inl (DirectoryEntry name reader, files, prefix)) \<in> measure traverseMeasure"
    by (simp add: traverseMeasure_def)
qed (simp_all add: traverseMeasure_def)

text \<open>The drop payload: \<^verbatim>\<open>dataTransfer.files\<close> and \<^verbatim>\<open>dataTransfer.items\<close>. An item is of
  kind \<^verbatim>\<open>file\<close>, with what \<^verbatim>\<open>webkitGetAsEntry()\<close> gives (\<open>None\<close> when the method is
  missing or returns null) and what \<^verbatim>\<open>getAsFile()\<close> gives, or of another kind.\<close>

datatype item = FileItem "entry option" "jsfile option" | OtherItem

record dataTransfer =
  dt_files :: "jsfile list"
  dt_items :: "item list"

text \<open>The \<^verbatim>\<open>for (const item of items)\<close> loop of \<^verbatim>\<open>getFilesFromDataTransfer\<close>.\<close>

fun collectItems :: "item list \<Rightarrow> jsfile list \<Rightarrow> jsfile list promise" where
  "collectItems [] files = Fulfilled files"
| "collectItems (OtherItem # rest) files = collectItems rest files"
| "collectItems (FileItem (Some entry) asFile # rest) files =
     (case traverseEntry entry files [] of
        Fulfilled files' \<Rightarrow> collectItems rest files'
      | Rejected error \<Rightarrow> Rejected error
      | Pending \<Rightarrow> Pending)"
| "collectItems (FileItem None asFile # rest) files =
     collectItems rest (case asFile of None \<Rightarrow> files | Some file \<Rightarrow> files @ [file])"

definition getFilesFromDataTransfer :: "dataTransfer \<Rightarrow> jsfile list promise" where
  "getFilesFromDataTransfer dataTransfer =
     (if dt_files dataTransfer \<noteq> []
      then Fulfilled (map (\<lambda>file. if webkitRelativePath file \<noteq> []
                                   then file\<lparr>relativePath := Some (webkitRelativePath file)\<rparr>
                                   else file)
                          (dt_files dataTransfer))
      else collectItems (dt_items dataTransfer) [])"

text \<open>
  The specification's wording of the collector, for comparison with \<open>traverseEntry\<close>.
  The children of a directory are all the batches its reader gives before the first
  empty one; the descriptors of an entry are those of its leaves in depth-first order,
  siblings in the order the platform returns them, each leaf under a non-empty prefix
  with \<open>relativePath\<close> equal to the prefix followed by its own name.
\<close>

definition specChildren :: "'a list option list \<Rightarrow> 'a list" where
  "specChildren reader =
     concat (map (\<lambda>answer. case answer of None \<Rightarrow> [] | Some batch \<Rightarrow> batch)
                 (takeWhile (\<lambda>answer. answer \<noteq> Some []) reader))"

lemma specChildren_size:
  assumes "child \<in> set (specChildren reader)"
  shows "size (child :: entry) < Suc (size_list (size_option (size_list size)) reader)"
proof -
  from assms obtain batch where b: "Some batch \<in> set reader" "child \<in> set batch"
    by (auto simp: specChildren_def split: option.splits dest: set_takeWhileD)
  from b(2) have "size child \<le> size_list size batch"
    by (rule size_list_estimation') simp
  then have "size child < size_option (size_list size) (Some batch)" by simp
  with b(1) have "size child < size_list (size_option (size_list size)) reader"
    by (rule size_list_estimation)
  then show ?thesis by simp
qed

function specDepthFirst :: "string \<Rightarrow> entry \<Rightarrow> jsfile list" where
  "specDepthFirst prefix (FileEntry result) =
     (case result of Inl error \<Rightarrow> [] | Inr file \<Rightarrow> [withPrefix prefix file])"
| "specDepthFirst prefix (DirectoryEntry name reader) =
     concat (map (specDepthFirst (prefix @ name @ ''/'')) (specChildren reader))"
| "specDepthFirst prefix OtherEntry = []"
  by pat_completeness auto

termination specDepthFirst
  by (relation "measure (\<lambda>(prefix, e). size e)") (auto dest: specChildren_size)



section \<open>The backend, as far as \<^verbatim>\<open>fetchAssets\<close> sees it\<close>

text \<open>
  \<^verbatim>\<open>fetchAssets(params)\<close> sends the parameters whose value is not empty and answers with
  the list of assets, or throws. The backend is a parameter of the model: whether the
  request fails (with the message of the error thrown) and, if not, the assets it
  returns for a query. Parameters are the entries of the \<^verbatim>\<open>params\<close> object, in order;
  an id is the text of the id.
\<close>

type_synonym params = "(string \<times> string) list"

record server =
  failure :: "string option"
  respond :: "params \<Rightarrow> asset list"

definition fetchAssets :: "server \<Rightarrow> params \<Rightarrow> string + asset list" where
  "fetchAssets srv ps =
     (case failure srv of
        Some message \<Rightarrow> Inl message
      | None \<Rightarrow> Inr (respond srv (filter (\<lambda>(key, v). v \<noteq> []) ps)))"


section \<open>DuplicateResolver: the duplicate check of \<^verbatim>\<open>handleUploadFiles\<close>\<close>

text \<open>\<^verbatim>\<open>files.some((file) => file.relativePath && file.relativePath.includes("/"))\<close>\<close>

definition hasNestedPath :: "jsfile list \<Rightarrow> bool" where
  "hasNestedPath files =
     list_ex (\<lambda>f. case relativePath f of
                     None \<Rightarrow> False
                   | Some path \<Rightarrow> path \<noteq> [] \<and> CHR ''/'' \<in> set path) files"

text \<open>\<^verbatim>\<open>Array.from(new Set(xs))\<close>: the distinct elements, in the order of their first
  occurrence.\<close>

definition insertionOrder :: "'a list \<Rightarrow> 'a list" where
  "insertionOrder xs = rev (remdups (rev xs))"

text \<open>\<^verbatim>\<open>xs.join(sep)\<close>\<close>

fun joinWith :: "string \<Rightarrow> string list \<Rightarrow> string" where
  "joinWith sep [] = []"
| "joinWith sep [x] = x"
| "joinWith sep (x # y # ys) = x @ sep @ joinWith sep (y # ys)"

text \<open>The keys of the map \<^verbatim>\<open>existingByName\<close>: the lowercase names of the existing assets,
  the empty name left out.\<close>

definition existingNames :: "asset list \<Rightarrow> string list" where
  "existingNames existing =
     filter (\<lambda>name. name \<noteq> []) (map (\<lambda>a. toLowerCase (filename a)) existing)"

definition dupNames :: "jsfile list \<Rightarrow> asset list \<Rightarrow> string list" where
  "dupNames files existing =
     insertionOrder
       (filter (\<lambda>name. name \<noteq> [] \<and> name \<in> set (existingNames existing))
               (map (\<lambda>f. toLowerCase (file_name f)) files))"

text \<open>
  What \<^verbatim>\<open>handleUploadFiles\<close> does before the upload starts: it returns for an empty
  batch; alerts and returns when no folder is active; skips the check for a batch with
  a nested path; otherwise asks the backend for the assets of the folder and, when
  candidate names collide, opens the duplicate prompt with the count and the sample.
  When the request fails, the \<^verbatim>\<open>catch\<close> shows an alert and the upload goes on without
  a prompt. (What follows the prompt, the deletion of the assets to replace, is not
  modelled.)
\<close>

datatype uploadGate =
    NothingToDo
  | NoFolderAlert
  | Bypassed
  | NoDuplicates
  | DuplicatePrompt nat string
  | CheckFailedAlert string

definition duplicateCheck :: "server \<Rightarrow> jsfile list \<Rightarrow> string option \<Rightarrow> uploadGate" where
  "duplicateCheck srv files activeFolder =
     (if files = [] then NothingToDo
      else
        (case activeFolder of
           None \<Rightarrow> NoFolderAlert
         | Some folderId \<Rightarrow>
             if hasNestedPath files then Bypassed
             else
               (case fetchAssets srv [(''folder_id'', folderId)] of
                  Inl message \<Rightarrow> CheckFailedAlert message
                | Inr existing \<Rightarrow>
                    (let names = dupNames files existing
                     in if names \<noteq> []
                        then DuplicatePrompt (length names) (joinWith '', '' (take 5 names))
                        else NoDuplicates))))"

text \<open>The candidate names that collide with an existing name, compared in lowercase.\<close>

definition collidingNames :: "jsfile list \<Rightarrow> asset list \<Rightarrow> string set" where
  "collidingNames files existing =
     {toLowerCase (file_name f) | f.
        f \<in> set files \<and> file_name f \<noteq> []
        \<and> toLowerCase (file_name f) \<in> (\<lambda>a. toLowerCase (filename a)) ` set existing}"


section \<open>FacetFilterEngine: \<^verbatim>\<open>buildFormats\<close> and \<^verbatim>\<open>loadFormats\<close>\<close>

text \<open>\<^verbatim>\<open>xs.sort((a, b) => a.localeCompare(b))\<close>. The comparison \<^verbatim>\<open>localeCompare\<close> is the
  platform's and depends on its locale: it is a parameter \<open>cmp\<close>. \<^verbatim>\<open>sort\<close> is stable:
  for a comparison that is a total preorder its result is the sorted arrangement in
  which elements that compare equal keep their order, which insertion from the right
  computes.\<close>

fun insertSorted :: "('a \<Rightarrow> 'a \<Rightarrow> int) \<Rightarrow> 'a \<Rightarrow> 'a list \<Rightarrow> 'a list" where
  "insertSorted cmp x [] = [x]"
| "insertSorted cmp x (y # ys) =
     (if cmp x y \<le> 0 then x # y # ys else y # insertSorted cmp x ys)"

definition sortWith :: "('a \<Rightarrow> 'a \<Rightarrow> int) \<Rightarrow> 'a list \<Rightarrow> 'a list" where
  "sortWith cmp xs = foldr (insertSorted cmp) xs []"

text \<open>The trimmed format of an asset, empty when the format is not a string.\<close>

definition formatValue :: "asset \<Rightarrow> string" where
  "formatValue a = (case format a of Some f \<Rightarrow> trim f | None \<Rightarrow> [])"

definition buildFormats :: "(string \<Rightarrow> string \<Rightarrow> int) \<Rightarrow> asset list \<Rightarrow> string list" where
  "buildFormats cmp data =
     sortWith cmp
       (insertionOrder (map toLowerCase (filter (\<lambda>v. v \<noteq> []) (map formatValue data))))"

text \<open>\<^verbatim>\<open>!filters.format\<close> is false when the filter object has a non-empty value under
  the key.\<close>

definition activeFilter :: "params \<Rightarrow> string \<Rightarrow> bool" where
  "activeFilter filters key = (case map_of filters key of Some v \<Rightarrow> v \<noteq> [] | None \<Rightarrow> False)"

text \<open>\<^verbatim>\<open>const nextFilters = { ...filters }; delete nextFilters.format;\<close>\<close>

definition withoutFilter :: "params \<Rightarrow> string \<Rightarrow> params" where
  "withoutFilter filters key = filter (\<lambda>(k, v). k \<noteq> key) filters"

text \<open>\<^verbatim>\<open>loadFormats\<close>: the options it passes to \<^verbatim>\<open>setFormatOptions\<close>, or \<open>None\<close> when the
  effect was cleaned up while the request was under way (\<^verbatim>\<open>active\<close> is false) and
  nothing is set. \<open>assets\<close> are the currently visible assets.\<close>

definition loadFormats ::
    "(string \<Rightarrow> string \<Rightarrow> int) \<Rightarrow> server \<Rightarrow> params \<Rightarrow> asset list \<Rightarrow> bool
      \<Rightarrow> string list option" where
  "loadFormats cmp srv filters assets activeAfterFetch =
     (if \<not> activeFilter filters ''format'' then Some (buildFormats cmp assets)
      else
        (case fetchAssets srv (withoutFilter filters ''format'') of
           Inr data \<Rightarrow> if activeAfterFetch then Some (buildFormats cmp data) else None
         | Inl message \<Rightarrow> if activeAfterFetch then Some [] else None))"

text \<open>A comparison of strings by the weights \<open>weight\<close> of their code units, the first
  difference deciding and a proper prefix first.\<close>

fun compareBy :: "(char \<Rightarrow> nat) \<Rightarrow> string \<Rightarrow> string \<Rightarrow> int" where
  "compareBy weight [] [] = 0"
| "compareBy weight [] (y # ys) = - 1"
| "compareBy weight (x # xs) [] = 1"
| "compareBy weight (x # xs) (y # ys) =
     (if weight x < weight y then - 1
      else if weight y < weight x then 1
      else compareBy weight xs ys)"

text \<open>The lexicographic order of the code units.\<close>

definition codeUnitCompare :: "string \<Rightarrow> string \<Rightarrow> int" where
  "codeUnitCompare = compareBy of_char"

text \<open>
  \<^verbatim>\<open>localeCompare\<close> on strings of lowercase ASCII letters, digits and underscores. The
  engines compare by the Unicode collation of the locale, and for these characters the
  collations agree: the underscore (punctuation) is before the digits and the digits are
  before the letters, the first difference decides. The code units have another order:
  the digits (0x30 to 0x39) are before the underscore (0x5F). The weight below is the
  code unit plus one, and 0 for the underscore; it stands for \<^verbatim>\<open>localeCompare\<close> on this
  alphabet only.
\<close>

definition collationWeight :: "char \<Rightarrow> nat" where
  "collationWeight c = (if c = CHR ''_'' then 0 else of_char c + 1)"

definition collationCompare :: "string \<Rightarrow> string \<Rightarrow> int" where
  "collationCompare = compareBy collationWeight"

text \<open>The query \<^verbatim>\<open>fetchAssets\<close> sends for the format options, in the words of the
  specification: every active filter (one with a non-empty value) except the format
  filter itself.\<close>

definition specFormatQuery :: "params \<Rightarrow> params" where
  "specFormatQuery filters = filter (\<lambda>(key, v). v \<noteq> [] \<and> key \<noteq> ''format'') filters"

text \<open>Two options that the comparison does not tell apart.\<close>

definition sameRank :: "('a \<Rightarrow> 'a \<Rightarrow> int) \<Rightarrow> 'a \<Rightarrow> 'a \<Rightarrow> bool" where
  "sameRank cmp a b \<longleftrightarrow> cmp a b \<le> 0 \<and> cmp b a \<le> 0"

section \<open>Evaluation lemmas\<close>

lemma js_round_div:
  assumes "0 < n"
  shows "js_round (real_of_int a / real_of_int n) = (2 * a + n) div (2 * n)"
proof -
  have "real_of_int a / real_of_int n + 1 / 2 = real_of_int (2 * a + n) / real_of_int (2 * n)"
    using assms by (simp add: field_simps)
  then show ?thesis
    unfolding js_round_def by (simp only: floor_divide_of_int_eq)
qed

lemma mergeInto_int:
  assumes "0 \<le> count found"
  shows "mergeInto found c =
     \<lparr>chan_r = (2 * (chan_r found * count found + chan_r c) + (count found + 1))
                 div (2 * (count found + 1)),
      chan_g = (2 * (chan_g found * count found + chan_g c) + (count found + 1))
                 div (2 * (count found + 1)),
      chan_b = (2 * (chan_b found * count found + chan_b c) + (count found + 1))
                 div (2 * (count found + 1)),
      hex = CHR ''#''
        # toHex ((2 * (chan_r found * count found + chan_r c) + (count found + 1))
                 div (2 * (count found + 1)))
        @ toHex ((2 * (chan_g found * count found + chan_g c) + (count found + 1))
                 div (2 * (count found + 1)))
        @ toHex ((2 * (chan_b found * count found + chan_b c) + (count found + 1))
                 div (2 * (count found + 1))),
      count = count found + 1\<rparr>"
proof -
  have n: "0 < count found + 1" using assms by simp
  show ?thesis
    unfolding mergeInto_def Let_def
    by (simp only: js_round_div [OF n] add_diff_cancel_right')
qed

lemma sqrt_784: "sqrt 784 = 28"
  using real_sqrt_abs [of 28] by simp

lemma colorDistance_le_iff:
  "colorDistance a b \<le> threshold \<longleftrightarrow>
     (chan_r a - chan_r b)\<^sup>2 + (chan_g a - chan_g b)\<^sup>2 + (chan_b a - chan_b b)\<^sup>2 \<le> 784"
proof -
  let ?d = "(chan_r a - chan_r b)\<^sup>2 + (chan_g a - chan_g b)\<^sup>2 + (chan_b a - chan_b b)\<^sup>2"
  have "colorDistance a b \<le> threshold \<longleftrightarrow> sqrt (real_of_int ?d) \<le> sqrt 784"
    by (simp only: colorDistance_def threshold_def sqrt_784)
  also have "\<dots> \<longleftrightarrow> real_of_int ?d \<le> 784"
    by (simp only: real_sqrt_le_iff)
  also have "\<dots> \<longleftrightarrow> ?d \<le> 784"
    by linarith
  finally show ?thesis .
qed

lemma colorDistance_le_colorDistance_iff:
  "colorDistance a c \<le> colorDistance b c \<longleftrightarrow>
     (chan_r a - chan_r c)\<^sup>2 + (chan_g a - chan_g c)\<^sup>2 + (chan_b a - chan_b c)\<^sup>2
       \<le> (chan_r b - chan_r c)\<^sup>2 + (chan_g b - chan_g c)\<^sup>2 + (chan_b b - chan_b c)\<^sup>2"
  unfolding colorDistance_def by (simp only: real_sqrt_le_iff of_int_le_iff)

lemmas color_eval =
  parseHexColor_def trim_def isWhiteSpace_def slice_def parseInt16_def isHexDigit_def
  toLowerCase_def lowerChar_def isUpperCase_def Let_def addColor_def newGroup_def digitValue_def
  toHex_def toString16_def padStart_def hexDigitChars_def clusterColors_def
  buildColorGroups_def colorDistance_le_iff mergeInto_int

section \<open>Lemmas on the ColorClusterer\<close>

lemma findIndex_None_iff: "findIndex P xs = None \<longleftrightarrow> (\<forall>x\<in>set xs. \<not> P x)"
  by (induction xs) auto

lemma findIndex_Some_iff:
  "findIndex P xs = Some i \<longleftrightarrow> i < length xs \<and> P (xs ! i) \<and> (\<forall>j<i. \<not> P (xs ! j))"
proof (induction xs arbitrary: i)
  case Nil
  then show ?case by simp
next
  case (Cons x xs)
  show ?case
  proof (cases "P x")
    case True
    then show ?thesis by (cases i) auto
  next
    case False
    show ?thesis
    proof (cases i)
      case 0
      with False show ?thesis by auto
    next
      case (Suc k)
      have "(\<forall>j<Suc k. \<not> P ((x # xs) ! j)) \<longleftrightarrow> (\<forall>j<k. \<not> P (xs ! j))"
        using False by (auto simp: less_Suc_eq_0_disj)
      with False Suc Cons.IH [of k] show ?thesis by auto
    qed
  qed
qed

lemma isHexDigit_cases: "isHexDigit c \<longleftrightarrow> c \<in> set ''0123456789abcdefABCDEF''"
  by (auto simp: isHexDigit_def digitValue_def hexDigitChars_def)

lemma hexDigit_props:
  assumes "isHexDigit c"
  shows "\<exists>n<16. digitValue c = Some n \<and> hexDigitChars ! n = lowerChar c"
    and "\<not> isWhiteSpace c" and "c \<noteq> CHR ''-''" and "c \<noteq> CHR ''+''"
    and "c \<noteq> CHR ''x''" and "c \<noteq> CHR ''X''"
  using assms unfolding isHexDigit_cases
  by (auto simp: digitValue_def hexDigitChars_def lowerChar_def isUpperCase_def isWhiteSpace_def)

lemma toString16_int: "toString16 (int k) = hexDigits k"
  by (simp add: toString16_def)

lemma toHex_two_digits:
  assumes "n < 16" "m < 16"
  shows "toHex (int (16 * n + m)) = [hexDigitChars ! n, hexDigitChars ! m]"
proof (cases "n = 0")
  case True
  have "hexDigitChars ! 0 = CHR ''0''" by (simp add: hexDigitChars_def)
  with True assms show ?thesis
    unfolding toHex_def toString16_int by (simp add: padStart_def)
next
  case False
  with assms have "\<not> 16 * n + m < 16" "(16 * n + m) div 16 = n" "(16 * n + m) mod 16 = m"
    by auto
  then have "hexDigits (16 * n + m) = [hexDigitChars ! n, hexDigitChars ! m]"
    using assms by (subst hexDigits.simps) simp
  then show ?thesis
    unfolding toHex_def toString16_int by (simp add: padStart_def)
qed

lemma parseInt16_two_digits:
  assumes "isHexDigit a" "isHexDigit b"
  shows "\<exists>v. parseInt16 [a, b] = Some v \<and> 0 \<le> v \<and> v \<le> 255
             \<and> toHex v = [lowerChar a, lowerChar b]"
proof -
  from hexDigit_props(1) [OF assms(1)] obtain n where
    n: "n < 16" "digitValue a = Some n" "hexDigitChars ! n = lowerChar a" by blast
  from hexDigit_props(1) [OF assms(2)] obtain m where
    m: "m < 16" "digitValue b = Some m" "hexDigitChars ! m = lowerChar b" by blast
  have "parseInt16 [a, b] = Some (int (16 * n + m))"
    using assms hexDigit_props(2-6) [OF assms(1)] hexDigit_props(2-6) [OF assms(2)] n(2) m(2)
    by (simp add: parseInt16_def Let_def)
  moreover have "toHex (int (16 * n + m)) = [lowerChar a, lowerChar b]"
    using toHex_two_digits [OF n(1) m(1)] n(3) m(3) by simp
  moreover have "int (16 * n + m) \<le> 255" using n(1) m(1) by simp
  ultimately show ?thesis by simp
qed

lemma parseHexColor_sixHexDigits:
  assumes "sixHexDigits v"
  shows "\<exists>c. parseHexColor v = Some c \<and> hexInvariant (newGroup c)"
proof -
  let ?n = "replaceFirst (CHR ''#'') (trim v)"
  from assms have len: "length ?n = 6" and all: "list_all isHexDigit ?n"
    by (simp_all add: sixHexDigits_def Let_def)
  from len obtain a b c d e f where n: "?n = [a, b, c, d, e, f]"
    by (auto simp: length_Suc_conv eval_nat_numeral)
  from all n have h: "isHexDigit a" "isHexDigit b" "isHexDigit c" "isHexDigit d"
    "isHexDigit e" "isHexDigit f" by simp_all
  from parseInt16_two_digits [OF h(1) h(2)] obtain r where
    r: "parseInt16 [a, b] = Some r" "0 \<le> r" "r \<le> 255"
       "toHex r = [lowerChar a, lowerChar b]" by blast
  from parseInt16_two_digits [OF h(3) h(4)] obtain g where
    g: "parseInt16 [c, d] = Some g" "0 \<le> g" "g \<le> 255"
       "toHex g = [lowerChar c, lowerChar d]" by blast
  from parseInt16_two_digits [OF h(5) h(6)] obtain bl where
    b: "parseInt16 [e, f] = Some bl" "0 \<le> bl" "bl \<le> 255"
       "toHex bl = [lowerChar e, lowerChar f]" by blast
  have "parseHexColor v = Some \<lparr>chan_r = r, chan_g = g, chan_b = bl,
      hex = CHR ''#'' # toLowerCase [a, b, c, d, e, f]\<rparr>"
    using n r(1) g(1) b(1) by (simp add: parseHexColor_def Let_def slice_def)
  then show ?thesis
    using r g b by (simp add: hexInvariant_def newGroup_def hexOfChannels_def toLowerCase_def)
qed

lemma int_div_less:
  assumes "0 < (c::int)" "a < b * c"
  shows "a div c < b"
proof (rule ccontr)
  assume "\<not> a div c < b"
  then have "b \<le> a div c" by simp
  then have "b * c \<le> a div c * c" using assms(1) by (simp add: mult_right_mono)
  moreover have "a div c * c = a - a mod c" by (simp add: minus_mod_eq_div_mult)
  moreover have "0 \<le> a mod c" using assms(1) by (rule pos_mod_sign)
  ultimately show False using assms(2) by linarith
qed

lemma roundedMean_bounds:
  assumes "0 \<le> old" "old \<le> 255" "0 \<le> s" "s \<le> 255" "1 \<le> (n::int)"
  shows "0 \<le> (2 * (old * n + s) + (n + 1)) div (2 * (n + 1))"
    and "(2 * (old * n + s) + (n + 1)) div (2 * (n + 1)) \<le> 255"
proof -
  have "0 \<le> old * n" using assms by simp
  then show "0 \<le> (2 * (old * n + s) + (n + 1)) div (2 * (n + 1))"
    using assms by (simp add: pos_imp_zdiv_nonneg_iff)
  have "old * n \<le> 255 * n" using assms by (simp add: mult_right_mono)
  moreover have "\<And>x::int. x \<le> 255 * n \<Longrightarrow> 2 * (x + s) + (n + 1) < 256 * (2 * (n + 1))"
    using assms by arith
  ultimately have "2 * (old * n + s) + (n + 1) < 256 * (2 * (n + 1))" by blast
  moreover have "0 < 2 * (n + 1)" using assms by simp
  ultimately have "(2 * (old * n + s) + (n + 1)) div (2 * (n + 1)) < 256"
    by (simp only: int_div_less)
  then show "(2 * (old * n + s) + (n + 1)) div (2 * (n + 1)) \<le> 255" by simp
qed

lemma mergeInto_hexInvariant:
  assumes "hexInvariant g" "hexInvariant (newGroup c)"
  shows "hexInvariant (mergeInto g c)"
proof -
  from assms have cnt: "0 \<le> count g" "1 \<le> count g" by (simp_all add: hexInvariant_def)
  show ?thesis
    using assms roundedMean_bounds [of "chan_r g" "chan_r c" "count g"]
      roundedMean_bounds [of "chan_g g" "chan_g c" "count g"]
      roundedMean_bounds [of "chan_b g" "chan_b c" "count g"]
    by (simp add: mergeInto_int [OF cnt(1)] hexInvariant_def hexOfChannels_def newGroup_def)
qed

lemma addColor_hexInvariant:
  assumes "list_all hexInvariant groups" "sixHexDigits color"
  shows "list_all hexInvariant (addColor groups color)"
proof -
  from parseHexColor_sixHexDigits [OF assms(2)] obtain c where
    c: "parseHexColor color = Some c" "hexInvariant (newGroup c)" by blast
  show ?thesis
  proof (cases "findIndex (\<lambda>group. colorDistance group c \<le> threshold) groups")
    case None
    with c assms(1) show ?thesis by (simp add: addColor_def)
  next
    case (Some i)
    have "list_all hexInvariant (groups[i := mergeInto (groups ! i) c])"
    proof (cases "i < length groups")
      case True
      with assms(1) have "hexInvariant (groups ! i)" by (simp add: list_all_length)
      then have "hexInvariant (mergeInto (groups ! i) c)"
        using c(2) by (rule mergeInto_hexInvariant)
      with assms(1) show ?thesis
        by (auto simp: list_all_iff dest!: subsetD [OF set_update_subset_insert])
    next
      case False
      with assms(1) show ?thesis by (simp add: list_update_beyond)
    qed
    with c Some show ?thesis by (simp add: addColor_def)
  qed
qed

lemma foldl_addColor_hexInvariant:
  assumes "list_all hexInvariant groups" "list_all sixHexDigits cs"
  shows "list_all hexInvariant (foldl addColor groups cs)"
  using assms by (induction cs arbitrary: groups) (simp_all add: addColor_hexInvariant)


section \<open>Claims on the ColorClusterer\<close>

text \<open>
  Claim C1, as the code has it. \<open>buildColorGroups\<close> takes the swatches one at a time.
  A swatch that parses is merged into the \<^emph>\<open>first\<close> group, in creation order, whose
  centroid is within Euclidean distance 28 of it (\<^verbatim>\<open>groups.find\<close>), whether or not a later
  group is nearer: the group's count goes up by one and each channel of the centroid
  becomes \<open>round((old * (count - 1) + sample) / count)\<close>, with the \<open>hex\<close> field recomputed.
  A swatch farther than 28 from every centroid is appended as a new group of count 1.
  In particular an input of two swatches within distance 28 of each other gives one
  group of count 2 whose centroid is the per-channel mean, rounded half up.
\<close>

theorem addColor_first_match:
  assumes "parseHexColor color = Some c"
  shows "((\<forall>group\<in>set groups. threshold < colorDistance group c) \<longrightarrow>
            addColor groups color =
              groups @ [\<lparr>chan_r = chan_r c, chan_g = chan_g c, chan_b = chan_b c,
                          hex = hex c, count = 1\<rparr>])
       \<and> (\<forall>i<length groups.
             colorDistance (groups ! i) c \<le> threshold \<and>
             (\<forall>j<i. threshold < colorDistance (groups ! j) c) \<longrightarrow>
             (let found = groups ! i; n = count found + 1;
                  r' = specIncrementalMean (chan_r found) n (chan_r c);
                  g' = specIncrementalMean (chan_g found) n (chan_g c);
                  b' = specIncrementalMean (chan_b found) n (chan_b c)
              in addColor groups color =
                   groups[i := \<lparr>chan_r = r', chan_g = g', chan_b = b',
                                 hex = CHR ''#'' # toHex r' @ toHex g' @ toHex b',
                                 count = n\<rparr>]))
       \<and> (\<forall>color1 c1.
             parseHexColor color1 = Some c1 \<and> colorDistance c1 c \<le> threshold \<longrightarrow>
             (let r' = js_round (real_of_int (chan_r c1 + chan_r c) / 2);
                  g' = js_round (real_of_int (chan_g c1 + chan_g c) / 2);
                  b' = js_round (real_of_int (chan_b c1 + chan_b c) / 2)
              in buildColorGroups
                   [\<lparr>asset_id = a, filename = f, colors = [color1, color], format = fm\<rparr>] =
                   [\<lparr>chan_r = r', chan_g = g', chan_b = b',
                      hex = CHR ''#'' # toHex r' @ toHex g' @ toHex b', count = 2\<rparr>]))"
proof (intro conjI impI allI)
  assume far: "\<forall>group\<in>set groups. threshold < colorDistance group c"
  then have "findIndex (\<lambda>group. colorDistance group c \<le> threshold) groups = None"
    by (simp add: findIndex_None_iff not_le)
  with assms show "addColor groups color =
      groups @ [\<lparr>chan_r = chan_r c, chan_g = chan_g c, chan_b = chan_b c,
                  hex = hex c, count = 1\<rparr>]"
    by (simp add: addColor_def newGroup_def)
next
  fix i
  assume "i < length groups"
    and "colorDistance (groups ! i) c \<le> threshold \<and>
         (\<forall>j<i. threshold < colorDistance (groups ! j) c)"
  then have "findIndex (\<lambda>group. colorDistance group c \<le> threshold) groups = Some i"
    by (simp add: findIndex_Some_iff not_le)
  with assms show "let found = groups ! i; n = count found + 1;
                  r' = specIncrementalMean (chan_r found) n (chan_r c);
                  g' = specIncrementalMean (chan_g found) n (chan_g c);
                  b' = specIncrementalMean (chan_b found) n (chan_b c)
              in addColor groups color =
                   groups[i := \<lparr>chan_r = r', chan_g = g', chan_b = b',
                                 hex = CHR ''#'' # toHex r' @ toHex g' @ toHex b',
                                 count = n\<rparr>]"
    by (simp add: addColor_def mergeInto_def Let_def specIncrementalMean_def)
next
  fix color1 c1
  assume h: "parseHexColor color1 = Some c1 \<and> colorDistance c1 c \<le> threshold"
  then have near: "colorDistance (newGroup c1) c \<le> threshold"
    by (simp add: colorDistance_def newGroup_def)
  have "clusterColors [\<lparr>asset_id = a, filename = f, colors = [color1, color], format = fm\<rparr>]
      = [mergeInto (newGroup c1) c]"
    using h assms near by (simp add: clusterColors_def addColor_def)
  then show "let r' = js_round (real_of_int (chan_r c1 + chan_r c) / 2);
                  g' = js_round (real_of_int (chan_g c1 + chan_g c) / 2);
                  b' = js_round (real_of_int (chan_b c1 + chan_b c) / 2)
              in buildColorGroups
                   [\<lparr>asset_id = a, filename = f, colors = [color1, color], format = fm\<rparr>] =
                   [\<lparr>chan_r = r', chan_g = g', chan_b = b',
                      hex = CHR ''#'' # toHex r' @ toHex g' @ toHex b', count = 2\<rparr>]"
    by (simp add: buildColorGroups_def mergeInto_def newGroup_def Let_def)
qed

text \<open>The theorem at concrete inputs: the swatch \<^verbatim>\<open>#1b0000\<close> against the groups of
  \<^verbatim>\<open>#000000\<close> and \<^verbatim>\<open>#280000\<close> (first match at index 0), the swatch \<^verbatim>\<open>#ffffff\<close> against
  the group of \<^verbatim>\<open>#000000\<close> (no match), and the two swatches \<^verbatim>\<open>#000000\<close>, \<^verbatim>\<open>#020202\<close>.\<close>

theorem addColor_first_match_witness:
  "parseHexColor ''#1b0000'' = Some \<lparr>chan_r = 27, chan_g = 0, chan_b = 0, hex = ''#1b0000''\<rparr>
   \<and> addColor [\<lparr>chan_r = 0, chan_g = 0, chan_b = 0, hex = ''#000000'', count = 1\<rparr>,
               \<lparr>chan_r = 40, chan_g = 0, chan_b = 0, hex = ''#280000'', count = 1\<rparr>] ''#1b0000''
       = [\<lparr>chan_r = 14, chan_g = 0, chan_b = 0, hex = ''#0e0000'', count = 2\<rparr>,
          \<lparr>chan_r = 40, chan_g = 0, chan_b = 0, hex = ''#280000'', count = 1\<rparr>]
   \<and> addColor [\<lparr>chan_r = 0, chan_g = 0, chan_b = 0, hex = ''#000000'', count = 1\<rparr>] ''#FFFFFF''
       = [\<lparr>chan_r = 0, chan_g = 0, chan_b = 0, hex = ''#000000'', count = 1\<rparr>,
          \<lparr>chan_r = 255, chan_g = 255, chan_b = 255, hex = ''#ffffff'', count = 1\<rparr>]
   \<and> buildColorGroups [\<lparr>asset_id = 1, filename = ''a.png'',
                         colors = [''#000000'', ''#020202''], format = Some ''png''\<rparr>]
       = [\<lparr>chan_r = 1, chan_g = 1, chan_b = 1, hex = ''#010101'', count = 2\<rparr>]"
proof -
  let ?g0 = "\<lparr>chan_r = 0, chan_g = 0, chan_b = 0, hex = ''#000000'', count = 1\<rparr>"
  let ?g1 = "\<lparr>chan_r = 40, chan_g = 0, chan_b = 0, hex = ''#280000'', count = 1\<rparr>"
  let ?c = "\<lparr>chan_r = 27, chan_g = 0, chan_b = 0, hex = ''#1b0000''\<rparr>"
  let ?w = "\<lparr>chan_r = 255, chan_g = 255, chan_b = 255, hex = ''#ffffff''\<rparr>"
  let ?k = "\<lparr>chan_r = 0, chan_g = 0, chan_b = 0, hex = ''#000000''\<rparr>"
  let ?d = "\<lparr>chan_r = 2, chan_g = 2, chan_b = 2, hex = ''#020202''\<rparr>"
  have p1: "parseHexColor ''#1b0000'' = Some ?c" by (simp add: color_eval)
  have p2: "parseHexColor ''#FFFFFF'' = Some ?w" by (simp add: color_eval)
  have p3: "parseHexColor ''#020202'' = Some ?d" by (simp add: color_eval)
  have p4: "parseHexColor ''#000000'' = Some ?k" by (simp add: color_eval)
  have near: "colorDistance ?g0 ?c \<le> threshold \<and> (\<forall>j<0::nat. threshold < colorDistance ([?g0, ?g1] ! j) ?c)"
    by (simp add: colorDistance_le_iff)
  have far: "\<forall>group\<in>set [?g0]. threshold < colorDistance group ?w"
    by (simp add: colorDistance_le_iff not_le [symmetric])
  have two: "parseHexColor ''#000000'' = Some ?k \<and> colorDistance ?k ?d \<le> threshold"
    using p4 by (simp add: colorDistance_le_iff)
  have r: "specIncrementalMean 0 2 27 = 14" "specIncrementalMean 0 2 0 = 0"
    "js_round 1 = 1"
    by (simp_all add: specIncrementalMean_def js_round_def)
  have h: "toHex 14 = ''0e''" "toHex 0 = ''00''" "toHex 1 = ''01''"
    by (simp_all add: toHex_def toString16_def padStart_def hexDigitChars_def)
  have "0 < length [?g0, ?g1]" by simp
  from addColor_first_match [OF p1, THEN conjunct2, THEN conjunct1, rule_format, OF this]
  have a: "addColor [?g0, ?g1] ''#1b0000''
       = [\<lparr>chan_r = 14, chan_g = 0, chan_b = 0, hex = ''#0e0000'', count = 2\<rparr>, ?g1]"
    using near by (simp add: Let_def r h)
  from addColor_first_match [OF p2, THEN conjunct1, THEN mp, OF far]
  have b: "addColor [?g0] ''#FFFFFF''
       = [?g0, \<lparr>chan_r = 255, chan_g = 255, chan_b = 255, hex = ''#ffffff'', count = 1\<rparr>]"
    by simp
  from addColor_first_match [OF p3, THEN conjunct2, THEN conjunct2, rule_format, OF two]
  have c: "buildColorGroups [\<lparr>asset_id = 1, filename = ''a.png'',
                         colors = [''#000000'', ''#020202''], format = Some ''png''\<rparr>]
       = [\<lparr>chan_r = 1, chan_g = 1, chan_b = 1, hex = ''#010101'', count = 2\<rparr>]"
    by (simp add: Let_def r h)
  from p1 a b c show ?thesis by (simp only: simp_thms)
qed

text \<open>Claim C1 as the specification words it (the swatch joins the \<^emph>\<open>nearest\<close> group when
  that one is within the threshold) fails on the swatches \<^verbatim>\<open>#000000\<close>, \<^verbatim>\<open>#280000\<close>,
  \<^verbatim>\<open>#1b0000\<close>: the third is at distance 27 of the first group and 13 of the second, and
  the code merges it into the first.\<close>

theorem addColor_not_nearest_counterexample:
  "clusterColors [\<lparr>asset_id = 1, filename = ''a.png'',
                    colors = [''#000000'', ''#280000'', ''#1b0000''], format = Some ''png''\<rparr>]
     = [\<lparr>chan_r = 14, chan_g = 0, chan_b = 0, hex = ''#0e0000'', count = 2\<rparr>,
        \<lparr>chan_r = 40, chan_g = 0, chan_b = 0, hex = ''#280000'', count = 1\<rparr>]
   \<and> foldl specAddColorNearest [] [''#000000'', ''#280000'', ''#1b0000'']
     = [\<lparr>chan_r = 0, chan_g = 0, chan_b = 0, hex = ''#000000'', count = 1\<rparr>,
        \<lparr>chan_r = 34, chan_g = 0, chan_b = 0, hex = ''#220000'', count = 2\<rparr>]"
  by (simp add: color_eval specAddColorNearest_def colorDistance_le_colorDistance_iff)

text \<open>
  Claim C10 states that every group's \<open>hex\<close> field is the two-digit lowercase
  hexadecimal encoding of its channels. A new group takes its \<open>hex\<close> from the swatch
  text and its channels from \<^verbatim>\<open>parseInt\<close>, which reads a leading run of digits and
  ignores the rest: the swatch \<^verbatim>\<open>1g0000\<close> passes the length and NaN checks of
  \<open>parseHexColor\<close> and gives a group whose channels are (1, 0, 0) and whose \<open>hex\<close> is
  \<^verbatim>\<open>#1g0000\<close>, not \<^verbatim>\<open>#010000\<close>.
\<close>

theorem buildColorGroups_hex_mismatch:
  "buildColorGroups [\<lparr>asset_id = 1, filename = ''a.png'', colors = [''1g0000''],
                       format = Some ''png''\<rparr>]
     = [\<lparr>chan_r = 1, chan_g = 0, chan_b = 0, hex = ''#1g0000'', count = 1\<rparr>]
   \<and> hexOfChannels \<lparr>chan_r = 1, chan_g = 0, chan_b = 0, hex = ''#1g0000'', count = 1 :: int\<rparr>
     = ''#010000''"
  by (simp add: color_eval hexOfChannels_def)

text \<open>
  For swatches that are six hexadecimal digits (after trimming, and without the first
  \<^verbatim>\<open>#\<close>) the invariant of claim C10 holds: every group of the result has channels
  between 0 and 255 and a \<open>hex\<close> field that is \<^verbatim>\<open>#\<close> followed by the two-digit lowercase
  hexadecimal encoding of the channels, both for a group just created and after every
  merge.
\<close>

theorem buildColorGroups_hexInvariant:
  assumes "\<forall>asset\<in>set data. \<forall>color\<in>set (colors asset). sixHexDigits color"
  shows "\<forall>group\<in>set (buildColorGroups data). hexInvariant group"
proof -
  from assms have "list_all sixHexDigits (concat (map colors data))"
    by (auto simp: list_all_iff)
  then have "list_all hexInvariant (clusterColors data)"
    unfolding clusterColors_def by (intro foldl_addColor_hexInvariant) simp_all
  then show ?thesis
    by (simp add: buildColorGroups_def list_all_iff)
qed

theorem buildColorGroups_hexInvariant_witness:
  "sixHexDigits ''#0A141E'' \<and> sixHexDigits '' 0C1620 ''
   \<and> buildColorGroups [\<lparr>asset_id = 1, filename = ''a.png'',
                         colors = [''#0A141E'', '' 0C1620 ''], format = Some ''png''\<rparr>]
       = [\<lparr>chan_r = 11, chan_g = 21, chan_b = 31, hex = ''#0b151f'', count = 2\<rparr>]
   \<and> hexInvariant \<lparr>chan_r = 11, chan_g = 21, chan_b = 31, hex = ''#0b151f'', count = 2\<rparr>"
proof -
  have s: "sixHexDigits ''#0A141E''" "sixHexDigits '' 0C1620 ''"
    by (simp_all add: sixHexDigits_def trim_def isWhiteSpace_def isHexDigit_def digitValue_def
        hexDigitChars_def)
  have e: "buildColorGroups [\<lparr>asset_id = 1, filename = ''a.png'',
                         colors = [''#0A141E'', '' 0C1620 ''], format = Some ''png''\<rparr>]
       = [\<lparr>chan_r = 11, chan_g = 21, chan_b = 31, hex = ''#0b151f'', count = 2\<rparr>]"
    by (simp add: color_eval)
  have "hexInvariant \<lparr>chan_r = 11, chan_g = 21, chan_b = 31, hex = ''#0b151f'', count = 2\<rparr>"
    using buildColorGroups_hexInvariant [of "[\<lparr>asset_id = 1, filename = ''a.png'',
                         colors = [''#0A141E'', '' 0C1620 ''], format = Some ''png''\<rparr>]"] s
    unfolding e by simp
  with s e show ?thesis by simp
qed

text \<open>
  The scenario of the specification: the swatches \<^verbatim>\<open>#000000\<close>, \<^verbatim>\<open>#020202\<close>, \<^verbatim>\<open>#FFFFFF\<close>
  with threshold 28. The first two merge into one group with centroid \<^verbatim>\<open>#010101\<close> and
  count 2, the third forms a group of its own, and the result is sorted by descending
  count.
\<close>

theorem buildColorGroups_scenario:
  "buildColorGroups
     [\<lparr>asset_id = 1, filename = ''a.png'', colors = [''#FFFFFF'', ''#000000''],
        format = Some ''png''\<rparr>,
      \<lparr>asset_id = 2, filename = ''b.png'', colors = [''not a colour'', ''#020202''],
        format = Some ''png''\<rparr>]
     = [\<lparr>chan_r = 1, chan_g = 1, chan_b = 1, hex = ''#010101'', count = 2\<rparr>,
        \<lparr>chan_r = 255, chan_g = 255, chan_b = 255, hex = ''#ffffff'', count = 1\<rparr>]"
  by (simp add: color_eval)



section \<open>Lemmas on the UploadScheduler\<close>

lemma sum_list_replicate_zero: "sum_list (replicate n (0::int)) = 0"
  by (induction n) simp_all

lemma sum_list_update_int:
  "i < length xs \<Longrightarrow> sum_list (xs[i := v]) = sum_list xs + (v - xs ! i)" for xs :: "int list"
proof (induction xs arbitrary: i)
  case Nil
  then show ?case by simp
next
  case (Cons x xs)
  then show ?case by (cases i) simp_all
qed

lemma three_workers:
  assumes "length ws = concurrency"
  obtains a b c where "ws = [a, b, c]"
  using assms by (auto simp: concurrency_def length_Suc_conv eval_nat_numeral)

lemma startRun_unfold:
  "startRun files = claimNext files 2 (claimNext files 1 (claimNext files 0
     \<lparr>cursor = 0, uploadedBytes = 0, lastLoaded = replicate (length files) 0,
      uploadErrors = [], percent = 0,
      current = (case files of [] \<Rightarrow> [] | file # _ \<Rightarrow> file_name file),
      index = 0, sent = [], workers = [NotStarted, NotStarted, NotStarted]\<rparr>))"
proof -
  have "[0..<concurrency] = [0, 1, 2]"
    by (simp add: concurrency_def upt_rec)
  moreover have "replicate concurrency NotStarted = [NotStarted, NotStarted, NotStarted]"
    by (simp add: concurrency_def eval_nat_numeral)
  ultimately show ?thesis
    by (simp add: startRun_def initialState_def)
qed

lemma replicate_update_same: "(replicate n x)[k := x] = replicate n x"
  by (induction n arbitrary: k) (simp_all split: nat.splits)

lemma wellFormed_startRun: "wellFormed files (startRun files)"
proof -
  consider "length files = 0" | "length files = 1" | "length files = 2" | "3 \<le> length files"
    by linarith
  then show ?thesis
    by cases (auto simp add: startRun_unfold claimNext_def wellFormed_def concurrency_def
          inFlight_def replicate_update_same sum_list_replicate_zero upt_rec)
qed

lemma pending_startRun: "pending files (startRun files) = length files"
proof -
  consider "length files = 0" | "length files = 1" | "length files = 2" | "3 \<le> length files"
    by linarith
  then show ?thesis
    by cases (auto simp add: startRun_unfold claimNext_def pending_def inFlight_def)
qed


lemma workerOf_inFlight:
  assumes "workerOf s i = Some w"
  shows "w < length (workers s)" "workers s ! w = Awaiting i" "i \<in> set (inFlight s)"
proof -
  from assms show w: "w < length (workers s)" and a: "workers s ! w = Awaiting i"
    by (simp_all add: workerOf_def findIndex_Some_iff)
  then have "Awaiting i \<in> set (workers s)" by (metis nth_mem)
  then show "i \<in> set (inFlight s)"
    by (force simp: inFlight_def)
qed

lemma wellFormed_uploadErrors [simp]:
  "wellFormed files (s\<lparr>uploadErrors := x\<rparr>) = wellFormed files s"
  by (simp add: wellFormed_def inFlight_def)

lemma pending_uploadErrors [simp]:
  "pending files (s\<lparr>uploadErrors := x\<rparr>) = pending files s"
  by (simp add: pending_def inFlight_def)

lemma list_update_same_nth: "i < length xs \<Longrightarrow> xs ! i = v \<Longrightarrow> xs[i := v] = xs"
  by (metis list_update_id)

lemma claimNext_wellFormed:
  assumes "wellFormed files s" "w < length (workers s)" "workers s ! w = Awaiting i"
  shows "wellFormed files (claimNext files w s)"
proof -
  from assms(1) have len: "length (workers s) = concurrency" by (simp add: wellFormed_def)
  then obtain a b c where ws: "workers s = [a, b, c]" by (rule three_workers)
  from assms(2) ws have w: "w = 0 \<or> w = 1 \<or> w = 2" by auto
  show ?thesis
  proof (cases "cursor s < length files")
    case True
    with assms(1) have z: "(lastLoaded s)[cursor s := 0] = lastLoaded s"
      by (intro list_update_same_nth) (simp_all add: wellFormed_def)
    from True assms(1) assms(3) ws w show ?thesis
      unfolding claimNext_def wellFormed_def
      by (auto simp: z inFlight_def concurrency_def less_Suc_eq split: worker.splits)
  next
    case False
    with assms(1) assms(3) ws w show ?thesis
      unfolding claimNext_def wellFormed_def
      by (auto simp: inFlight_def concurrency_def split: worker.splits)
  qed
qed

lemma claimNext_pending:
  assumes "wellFormed files s" "w < length (workers s)" "workers s ! w = Awaiting i"
  shows "Suc (pending files (claimNext files w s)) = pending files s"
proof -
  from assms(1) have len: "length (workers s) = concurrency" by (simp add: wellFormed_def)
  then obtain a b c where ws: "workers s = [a, b, c]" by (rule three_workers)
  from assms(2) ws have w: "w = 0 \<or> w = 1 \<or> w = 2" by auto
  from assms(1) have c: "cursor s \<le> length files" by (simp add: wellFormed_def)
  from assms(3) ws w c show ?thesis
    unfolding claimNext_def pending_def
    by (auto simp: inFlight_def split: worker.splits)
qed

lemma onProgress_wellFormed:
  assumes "wellFormed files s" "workerOf s i = Some w"
  shows "wellFormed files (onProgress files i lc loaded s)"
proof -
  from workerOf_inFlight(3) [OF assms(2)] assms(1)
  have i: "i < cursor s" "i < length (lastLoaded s)"
    by (auto simp: wellFormed_def)
  with assms(1) show ?thesis
    unfolding onProgress_def wellFormed_def
    by (auto simp: Let_def inFlight_def sum_list_update_int nth_list_update)
qed

lemma onProgress_pending [simp]:
  "pending files (onProgress files i lc loaded s) = pending files s"
  by (simp add: onProgress_def pending_def inFlight_def Let_def)


lemma step_wellFormed:
  assumes "wellFormed files s"
  shows "wellFormed files (step files s e)"
proof (cases e)
  case (Progress i lc loaded)
  with assms show ?thesis
    by (auto simp: step_def onProgress_wellFormed split: option.splits)
next
  case (Load i status parseError)
  with assms show ?thesis
    by (auto simp: step_def failedByReject_def failedViaOnError_def
        intro!: claimNext_wellFormed dest: workerOf_inFlight(1,2) split: option.splits)
next
  case (NetworkError i)
  with assms show ?thesis
    by (auto simp: step_def failedViaOnError_def
        intro!: claimNext_wellFormed dest: workerOf_inFlight(1,2) split: option.splits)
qed

lemma foldl_step_wellFormed:
  "wellFormed files s \<Longrightarrow> wellFormed files (foldl (step files) s es)"
  by (induction es arbitrary: s) (simp_all add: step_wellFormed)

lemma run_wellFormed: "wellFormed files (run files es)"
  unfolding run_def by (rule foldl_step_wellFormed) (rule wellFormed_startRun)

lemma step_pending:
  assumes "wellFormed files s"
  shows "pending files (step files s e)
           + (case settles e of None \<Rightarrow> 0 | Some i \<Rightarrow> if workerOf s i = None then 0 else 1)
         = pending files s"
proof (cases e)
  case (Progress i lc loaded)
  then show ?thesis by (simp add: step_def split: option.splits)
next
  case (Load i status parseError)
  show ?thesis
  proof (cases "workerOf s i")
    case None
    with Load show ?thesis by (simp add: step_def)
  next
    case (Some w)
    note wf = workerOf_inFlight(1,2) [OF Some]
    have "Suc (pending files (claimNext files w (s\<lparr>uploadErrors := x\<rparr>))) = pending files s" for x
      using claimNext_pending [of files "s\<lparr>uploadErrors := x\<rparr>" w i] assms wf by simp
    moreover have "Suc (pending files (claimNext files w s)) = pending files s"
      using claimNext_pending [OF assms wf] .
    ultimately show ?thesis
      using Load Some
      by (simp add: step_def failedByReject_def failedViaOnError_def split: option.splits)
  qed
next
  case (NetworkError i)
  show ?thesis
  proof (cases "workerOf s i")
    case None
    with NetworkError show ?thesis by (simp add: step_def)
  next
    case (Some w)
    note wf = workerOf_inFlight(1,2) [OF Some]
    have "Suc (pending files (claimNext files w (s\<lparr>uploadErrors := x\<rparr>))) = pending files s" for x
      using claimNext_pending [of files "s\<lparr>uploadErrors := x\<rparr>" w i] assms wf by simp
    then show ?thesis
      using NetworkError Some by (simp add: step_def failedViaOnError_def)
  qed
qed

lemma foldl_step_pending:
  "wellFormed files s \<Longrightarrow>
     pending files (foldl (step files) s es) + settlements files s es = pending files s"
proof (induction es arbitrary: s)
  case Nil
  then show ?case by simp
next
  case (Cons e es)
  have "wellFormed files (step files s e)"
    using Cons.prems by (rule step_wellFormed)
  then have "pending files (foldl (step files) (step files s e) es)
               + settlements files (step files s e) es = pending files (step files s e)"
    by (rule Cons.IH)
  with step_pending [OF Cons.prems, of e] show ?case
    unfolding foldl.simps settlements.simps by linarith
qed

lemma settled_iff_pending:
  assumes "wellFormed files s"
  shows "settled s \<longleftrightarrow> pending files s = 0"
proof -
  from assms have len: "length (workers s) = concurrency" by (simp add: wellFormed_def)
  then obtain a b c where ws: "workers s = [a, b, c]" by (rule three_workers)
  from assms ws show ?thesis
    unfolding settled_def pending_def wellFormed_def
    by (cases a; cases b; cases c) (auto simp: inFlight_def)
qed

lemma totalBytes_cases:
  "(sum_list (map file_size files) = 0 \<and> totalBytes files = 1)
   \<or> (0 < sum_list (map file_size files)
       \<and> totalBytes files = int (sum_list (map file_size files)))"
  unfolding totalBytes_def Let_def
  by (cases "sum_list (map file_size files) = 0") (simp_all del: sum_list_eq_0_iff)

lemma totalBytes_pos: "0 < totalBytes files"
  using totalBytes_cases [of files] by (auto simp del: sum_list_eq_0_iff)

lemma totalBytes_ge_sum: "int (sum_list (map file_size files)) \<le> totalBytes files"
  using totalBytes_cases [of files] by (auto simp del: sum_list_eq_0_iff)

lemma roundHalfEven_error: "\<bar>of_int (roundHalfEven x) - x\<bar> \<le> 1 / 2"
  unfolding roundHalfEven_def Let_def by (auto simp: abs_if) linarith+

lemma powr_two_of_int: "(2::real) powr real_of_int k = 2 powi k"
  by (rule powr_real_of_int') simp_all

lemma binaryExponent_bounds:
  assumes "x \<noteq> 0"
  shows "2 powi binaryExponent x \<le> \<bar>x\<bar>" and "\<bar>x\<bar> < 2 powi (binaryExponent x + 1)"
proof -
  have pos: "0 < \<bar>x\<bar>" using assms by simp
  have "\<lfloor>log 2 \<bar>x\<bar>\<rfloor> = binaryExponent x" by (simp add: binaryExponent_def)
  then have "2 powr real_of_int (binaryExponent x) \<le> \<bar>x\<bar>
      \<and> \<bar>x\<bar> < 2 powr real_of_int (binaryExponent x + 1)"
    using floor_log_eq_powr_iff [OF pos, of 2 "binaryExponent x"] by simp
  then show "2 powi binaryExponent x \<le> \<bar>x\<bar>" and "\<bar>x\<bar> < 2 powi (binaryExponent x + 1)"
    unfolding powr_two_of_int by simp_all
qed

lemma binaryExponent_eqI:
  assumes "2 powi e \<le> \<bar>x\<bar>" and "\<bar>x\<bar> < 2 powi (e + 1)"
  shows "binaryExponent x = e"
proof -
  have "(0::real) < 2 powi e" by simp
  with assms(1) have pos: "0 < \<bar>x\<bar>" by linarith
  have "2 powr real_of_int e \<le> \<bar>x\<bar> \<and> \<bar>x\<bar> < 2 powr real_of_int (e + 1)"
    unfolding powr_two_of_int using assms by simp
  then show ?thesis
    unfolding binaryExponent_def using floor_log_eq_powr_iff [OF pos, of 2 e] by simp
qed

lemma toDouble_error:
  "\<bar>toDouble x - x\<bar> \<le> \<bar>x\<bar> / 2 ^ 53"
proof (cases "x = 0")
  case True
  then show ?thesis by (simp add: toDouble_def)
next
  case False
  define ulp :: real where "ulp = 2 powi (binaryExponent x - 52)"
  have ulp: "0 < ulp" by (simp add: ulp_def)
  have t: "toDouble x = of_int (roundHalfEven (x / ulp)) * ulp"
    using False by (simp add: toDouble_def Let_def ulp_def)
  have "\<bar>toDouble x - x\<bar> = \<bar>of_int (roundHalfEven (x / ulp)) - x / ulp\<bar> * ulp"
    using ulp unfolding t by (simp add: abs_mult_pos [symmetric] field_simps)
  also have "\<dots> \<le> 1 / 2 * ulp"
    using roundHalfEven_error [of "x / ulp"] ulp by (intro mult_right_mono) simp_all
  also have "1 / 2 * ulp = 2 powi binaryExponent x / 2 ^ 53"
    unfolding ulp_def by (simp add: power_int_diff)
  also have "\<dots> \<le> \<bar>x\<bar> / 2 ^ 53"
    using binaryExponent_bounds(1) [OF False] by (simp add: divide_right_mono)
  finally show ?thesis .
qed

lemma toDouble_eval:
  assumes "2 powi e \<le> \<bar>x\<bar>" and "\<bar>x\<bar> < 2 powi (e + 1)"
  shows "toDouble x = of_int (roundHalfEven (x / 2 powi (e - 52))) * 2 powi (e - 52)"
proof -
  have "(0::real) < 2 powi e" by simp
  with assms(1) have "0 < \<bar>x\<bar>" by linarith
  then have "x \<noteq> 0" by simp
  then show ?thesis
    by (simp add: toDouble_def Let_def binaryExponent_eqI [OF assms])
qed

lemma percent_error:
  assumes "0 \<le> x"
  shows "\<bar>toDouble (toDouble x * 100) - x * 100\<bar> \<le> 300 * x / 2 ^ 53"
proof -
  define q where "q = toDouble x"
  define y where "y = toDouble (q * 100)"
  have q: "\<bar>q - x\<bar> \<le> x / 2 ^ 53"
    using toDouble_error [of x] assms by (simp add: q_def)
  have "x / 2 ^ 53 \<le> x" using assms by (simp add: field_simps)
  with q have q2: "\<bar>q\<bar> \<le> 2 * x" by linarith
  have "\<bar>y - q * 100\<bar> \<le> \<bar>q * 100\<bar> / 2 ^ 53"
    unfolding y_def by (rule toDouble_error)
  also have "\<dots> = \<bar>q\<bar> * 100 / 2 ^ 53" by (simp add: abs_mult)
  also have "\<dots> \<le> (2 * x) * 100 / 2 ^ 53"
    using q2 by (intro divide_right_mono mult_right_mono) simp_all
  finally have y: "\<bar>y - q * 100\<bar> \<le> 200 * x / 2 ^ 53" by simp
  have "y - x * 100 = (y - q * 100) + 100 * (q - x)" by simp
  then have "\<bar>y - x * 100\<bar> \<le> \<bar>y - q * 100\<bar> + \<bar>100 * (q - x)\<bar>"
    by (simp only: abs_triangle_ineq)
  also have "\<bar>100 * (q - x)\<bar> = 100 * \<bar>q - x\<bar>" by (simp only: abs_mult abs_numeral)
  finally have "\<bar>y - x * 100\<bar> \<le> \<bar>y - q * 100\<bar> + 100 * \<bar>q - x\<bar>" .
  also have "\<dots> \<le> 200 * x / 2 ^ 53 + 100 * (x / 2 ^ 53)"
    using y q by (intro add_mono mult_left_mono) simp_all
  also have "\<dots> = 300 * x / 2 ^ 53" by simp
  finally show ?thesis unfolding y_def q_def .
qed

text \<open>The percentage the code reports against the exact percentage, for a batch of at
  most \<open>2 ^ 43\<close> bytes: the two roundings move the product by less than the distance
  between an exact percentage and the nearest half it does not sit on.\<close>

lemma percentOf_cases:
  assumes u: "0 \<le> u" and t: "0 < t" and small: "t \<le> 2 ^ 43"
  shows "((200 * u + t) mod (2 * t) \<noteq> 0 \<longrightarrow> percentOf u t = min 100 ((200 * u + t) div (2 * t)))
       \<and> (percentOf u t = min 100 ((200 * u + t) div (2 * t))
            \<or> percentOf u t = min 100 ((200 * u + t) div (2 * t) - 1))"
proof -
  define x where "x = real_of_int u / real_of_int t"
  define y where "y = toDouble (toDouble x * 100)"
  define n where "n = (200 * u + t) div (2 * t)"
  define r where "r = (200 * u + t) mod (2 * t)"
  define D where "D = real_of_int (2 * t)"
  have D: "0 < D" "D \<le> 2 ^ 44" using t small by (simp_all add: D_def)
  have x: "0 \<le> x" using u t by (simp add: x_def)
  have p: "percentOf u t = min 100 \<lfloor>y + 1 / 2\<rfloor>"
    by (simp add: percentOf_def js_round_def y_def x_def)
  have err: "\<bar>y - x * 100\<bar> \<le> 300 * x / 2 ^ 53"
    unfolding y_def by (rule percent_error [OF x])
  have "200 * u + t = n * (2 * t) + r"
    unfolding n_def r_def by (rule div_mult_mod_eq [symmetric])
  then have "real_of_int (200 * u + t) = real_of_int n * D + real_of_int r"
    unfolding D_def by (metis of_int_add of_int_mult)
  moreover have "real_of_int (200 * u + t) = (x * 100 + 1 / 2) * D"
    using t by (simp add: x_def D_def field_simps)
  ultimately have X: "x * 100 + 1 / 2 = real_of_int n + real_of_int r / D"
    using D(1) by (simp add: field_simps)
  have r: "0 \<le> r" "r < 2 * t" using t by (simp_all add: r_def)
  then have rD: "0 \<le> real_of_int r" "real_of_int r \<le> D - 1"
    unfolding D_def by linarith+
  show ?thesis
  proof (cases "101 \<le> x * 100")
    case True
    have "300 * x / 2 ^ 53 \<le> x" using x by (simp add: field_simps)
    with err True have "100 \<le> y + 1 / 2" by linarith
    then have "100 \<le> \<lfloor>y + 1 / 2\<rfloor>" by linarith
    then have a: "percentOf u t = 100" unfolding p by simp
    have "real_of_int r / D < 1" using rD D(1) by simp
    with X True have "101 < real_of_int n + 1" by linarith
    then have "101 \<le> n" by linarith
    with a show ?thesis unfolding n_def [symmetric] by simp
  next
    case False
    then have "300 * x / 2 ^ 53 < 1 / 2 ^ 44" using x by (simp add: field_simps)
    also have "1 / 2 ^ 44 \<le> 1 / D" using D by (simp add: field_simps)
    finally have e: "\<bar>y - x * 100\<bar> < 1 / D" using err by linarith
    have D1: "1 / D \<le> 1 / 2" using t unfolding D_def by (simp add: field_simps) 
    have tie: "\<lfloor>y + 1 / 2\<rfloor> = n \<or> \<lfloor>y + 1 / 2\<rfloor> = n - 1"
    proof -
      have "real_of_int r / D < 1" using rD D(1) by simp
      moreover have "0 \<le> real_of_int r / D" using rD D(1) by simp
      ultimately have "real_of_int n - 1 \<le> y + 1 / 2" "y + 1 / 2 < real_of_int n + 2"
        using e X D1 by linarith+
      then have "n - 1 \<le> \<lfloor>y + 1 / 2\<rfloor>" "\<lfloor>y + 1 / 2\<rfloor> < n + 2" by linarith+
      moreover have "\<lfloor>y + 1 / 2\<rfloor> \<noteq> n + 1"
      proof
        assume "\<lfloor>y + 1 / 2\<rfloor> = n + 1"
        then have "real_of_int n + 1 \<le> y + 1 / 2" by linarith
        moreover have "real_of_int r / D \<le> 1 - 1 / D"
          using rD D(1) by (simp add: field_simps)
        ultimately show False using e X by linarith
      qed
      ultimately show ?thesis by linarith
    qed
    have exact: "\<lfloor>y + 1 / 2\<rfloor> = n" if "r \<noteq> 0"
    proof -
      from that r have "1 \<le> real_of_int r" by linarith
      then have "1 / D \<le> real_of_int r / D" using D(1) by (simp add: divide_right_mono)
      moreover have "real_of_int r / D \<le> 1 - 1 / D"
        using rD D(1) by (simp add: field_simps)
      ultimately have "real_of_int n \<le> y + 1 / 2" "y + 1 / 2 < real_of_int n + 1"
        using e X by linarith+
      then show ?thesis by linarith
    qed
    from tie exact show ?thesis
      unfolding p n_def [symmetric] r_def [symmetric] by auto
  qed
qed

lemma inFlight_le_concurrency:
  assumes "wellFormed files s"
  shows "length (inFlight s) \<le> concurrency"
proof -
  from assms have "length (workers s) = concurrency" by (simp add: wellFormed_def)
  then obtain a b c where "workers s = [a, b, c]" by (rule three_workers)
  then show ?thesis
    by (simp add: inFlight_def concurrency_def split: worker.splits)
qed

lemma settled_cursor:
  assumes "wellFormed files s" "settled s"
  shows "cursor s = length files"
proof -
  from assms(1) have "length (workers s) = concurrency" by (simp add: wellFormed_def)
  then obtain a b c where "workers s = [a, b, c]" by (rule three_workers)
  with assms show ?thesis
    by (auto simp: wellFormed_def settled_def)
qed

lemma run_settled_iff:
  "settled (run files es) \<longleftrightarrow> settlements files (startRun files) es = length files"
proof -
  have "pending files (run files es) + settlements files (startRun files) es = length files"
    using foldl_step_pending [OF wellFormed_startRun, of files es]
    by (simp add: run_def pending_startRun)
  then show ?thesis
    using settled_iff_pending [OF run_wellFormed, of files es] by auto
qed

lemma run_settled_sent:
  assumes "settled (run files es)"
  shows "sent (run files es) = [0..<length files]"
  using settled_cursor [OF run_wellFormed assms] run_wellFormed [of files es]
  by (simp add: wellFormed_def)


lemma sum_list_pointwise_le:
  assumes "length xs = length ys" "\<forall>i<length xs. xs ! i \<le> ys ! i"
  shows "sum_list xs \<le> sum_list (ys :: int list)"
  using assms
proof (induction xs ys rule: list_induct2)
  case Nil
  then show ?case by simp
next
  case (Cons x xs y ys)
  from Cons.prems have "x \<le> y" by auto
  moreover from Cons.prems have "\<forall>i<length xs. xs ! i \<le> ys ! i" by auto
  ultimately show ?case using Cons.IH by simp
qed

lemma sum_list_pointwise_eq:
  assumes "length xs = length ys" "\<forall>i<length xs. xs ! i \<le> ys ! i"
    "sum_list xs = sum_list (ys :: int list)"
  shows "\<forall>i<length xs. xs ! i = ys ! i"
  using assms
proof (induction xs ys rule: list_induct2)
  case Nil
  then show ?case by simp
next
  case (Cons x xs y ys)
  from Cons.prems have xy: "x \<le> y" by auto
  from Cons.prems have le: "\<forall>i<length xs. xs ! i \<le> ys ! i" by auto
  from sum_list_pointwise_le [OF Cons.hyps le] xy Cons.prems(2)
  have "x = y" "sum_list xs = sum_list ys" by auto
  with Cons.IH [OF le] show ?case by (auto simp: nth_Cons split: nat.splits)
qed

lemma sum_list_nonneg_int:
  "\<forall>i<length xs. 0 \<le> xs ! i \<Longrightarrow> 0 \<le> sum_list (xs :: int list)"
  by (rule sum_list_nonneg) (auto simp: in_set_conv_nth)

lemma claimNext_loadedWithinSize:
  assumes "loadedWithinSize files s"
  shows "loadedWithinSize files (claimNext files w s)"
  using assms by (auto simp: loadedWithinSize_def claimNext_def nth_list_update)

lemma onProgress_loadedWithinSize:
  assumes "loadedWithinSize files s" "withinSize files (Progress i lc loaded)"
  shows "loadedWithinSize files (onProgress files i lc loaded s)"
proof (cases "i < length files")
  case True
  with assms show ?thesis
    by (auto simp: onProgress_def Let_def loadedWithinSize_def nth_list_update)
next
  case False
  with assms show ?thesis
    by (auto simp: onProgress_def Let_def loadedWithinSize_def list_update_beyond)
qed

lemma step_loadedWithinSize:
  assumes "loadedWithinSize files s" "withinSize files e"
  shows "loadedWithinSize files (step files s e)"
proof (cases e)
  case (Progress i lc loaded)
  with assms show ?thesis
    by (auto simp: step_def intro: onProgress_loadedWithinSize split: option.splits)
next
  case (Load i status parseError)
  have "loadedWithinSize files (t\<lparr>uploadErrors := x\<rparr>) = loadedWithinSize files t" for t x
    by (simp add: loadedWithinSize_def)
  with Load assms(1) show ?thesis
    by (auto simp: step_def failedByReject_def failedViaOnError_def
        intro!: claimNext_loadedWithinSize split: option.splits)
next
  case (NetworkError i)
  have "loadedWithinSize files (t\<lparr>uploadErrors := x\<rparr>) = loadedWithinSize files t" for t x
    by (simp add: loadedWithinSize_def)
  with NetworkError assms(1) show ?thesis
    by (auto simp: step_def failedViaOnError_def
        intro!: claimNext_loadedWithinSize split: option.splits)
qed

lemma foldl_step_loadedWithinSize:
  "loadedWithinSize files s \<Longrightarrow> \<forall>e\<in>set es. withinSize files e \<Longrightarrow>
     loadedWithinSize files (foldl (step files) s es)"
  by (induction es arbitrary: s) (simp_all add: step_loadedWithinSize)

lemma startRun_loadedWithinSize: "loadedWithinSize files (startRun files)"
  by (simp add: startRun_unfold loadedWithinSize_def claimNext_def replicate_update_same)


lemma run_loadedWithinSize:
  "\<forall>e\<in>set es. withinSize files e \<Longrightarrow> loadedWithinSize files (run files es)"
  unfolding run_def by (rule foldl_step_loadedWithinSize) (rule startRun_loadedWithinSize)


lemmas upload_eval =
  run_def startRun_unfold step_def workerOf_def claimNext_def onProgress_def
  failedViaOnError_def failedByReject_def errorLine_def plainFile_def Let_def
  settled_def inFlight_def totalBytes_def

lemma percentOf_eval [simp]:
  assumes "0 \<le> u" and "numeral t \<le> (2 :: int) ^ 43"
    and "(200 * u + numeral t) mod (2 * numeral t) \<noteq> (0 :: int)"
  shows "percentOf u (numeral t) = min 100 ((200 * u + numeral t) div (2 * numeral t))"
  using percentOf_cases [OF assms(1) _ assms(2)] assms(3) by simp

lemma toDouble_23_of_40:
  "toDouble (23 / 40) = 5179139571476070 / 2 ^ 53"
  "toDouble (5179139571476070 / 2 ^ 53 * 100) = 8092405580431359 / 2 ^ 47"
proof -
  show "toDouble (23 / 40) = 5179139571476070 / 2 ^ 53"
    by (subst toDouble_eval [where e = "- 1"])
      (simp_all add: roundHalfEven_def Let_def power_int_minus)
  show "toDouble (5179139571476070 / 2 ^ 53 * 100) = 8092405580431359 / 2 ^ 47"
    by (subst toDouble_eval [where e = "5"])
      (simp_all add: roundHalfEven_def Let_def power_int_minus)
qed

lemma percentOf_23_of_40: "percentOf 23 40 = 57"
  unfolding percentOf_def
  by (simp only: of_int_numeral toDouble_23_of_40) (simp add: js_round_def)

lemma toDouble_1_of_8:
  "toDouble (1 / 8) = 1 / 8"
  "toDouble (1 / 8 * 100) = 25 / 2"
proof -
  show "toDouble (1 / 8) = 1 / 8"
    by (subst toDouble_eval [where e = "- 3"])
      (simp_all add: roundHalfEven_def Let_def power_int_minus)
  show "toDouble (1 / 8 * 100) = 25 / 2"
    by (subst toDouble_eval [where e = "3"])
      (simp_all add: roundHalfEven_def Let_def power_int_minus)
qed

lemma percentOf_1_of_8: "percentOf 1 8 = 13"
  unfolding percentOf_def
  by (simp only: of_int_numeral of_int_1 toDouble_1_of_8) (simp add: js_round_def)



section \<open>Claims on the UploadScheduler\<close>

text \<open>
  Claim C2, as the code has it. \<open>uploadedBytes\<close> is at every moment the sum, over the
  files of the batch, of the value their last computable progress event reported
  (0 for a file that reported none): nothing is added when a file fails or completes,
  so a failed file contributes only what it reported before it failed, and the code
  does not compare \<open>uploadedBytes\<close> with \<open>totalBytes\<close> (it clamps the percentage at 100
  instead). Provided every progress event reports a value between 0 and the declared
  size of its file, \<open>0 \<le> uploadedBytes \<le> totalBytes\<close> at all times,
  \<open>uploadedBytes = totalBytes\<close> only when every file has reported its full size, and,
  for a batch of positive total size, whenever every file has.
\<close>

theorem uploadedBytes_accounting:
  "uploadedBytes (run files es) = sum_list (lastLoaded (run files es))
   \<and> length (lastLoaded (run files es)) = length files
   \<and> (\<forall>i. settles e = Some i \<longrightarrow>
         uploadedBytes (step files (run files es) e) = uploadedBytes (run files es))
   \<and> ((\<forall>e\<in>set es. withinSize files e) \<longrightarrow>
         (\<forall>i<length files. 0 \<le> lastLoaded (run files es) ! i
                          \<and> lastLoaded (run files es) ! i \<le> int (file_size (files ! i)))
       \<and> 0 \<le> uploadedBytes (run files es)
       \<and> uploadedBytes (run files es) \<le> totalBytes files
       \<and> (uploadedBytes (run files es) = totalBytes files \<longrightarrow>
             (\<forall>i<length files. lastLoaded (run files es) ! i = int (file_size (files ! i))))
       \<and> ((\<forall>i<length files. lastLoaded (run files es) ! i = int (file_size (files ! i)))
             \<and> 0 < sum_list (map file_size files) \<longrightarrow>
             uploadedBytes (run files es) = totalBytes files))"
proof -
  let ?s = "run files es"
  let ?sizes = "map (\<lambda>f. int (file_size f)) files"
  have wf: "wellFormed files ?s" by (rule run_wellFormed)
  then have sum: "uploadedBytes ?s = sum_list (lastLoaded ?s)"
    and len: "length (lastLoaded ?s) = length files"
    by (simp_all add: wellFormed_def)
  have sizes: "sum_list ?sizes = int (sum_list (map file_size files))"
    by (induction files) simp_all
  have fail: "\<forall>i. settles e = Some i \<longrightarrow>
      uploadedBytes (step files ?s e) = uploadedBytes ?s"
    by (cases e) (simp_all add: step_def claimNext_def failedViaOnError_def failedByReject_def
        split: option.splits)
  have bounded: "(\<forall>i<length files. 0 \<le> lastLoaded ?s ! i
                          \<and> lastLoaded ?s ! i \<le> int (file_size (files ! i)))
       \<and> 0 \<le> uploadedBytes ?s
       \<and> uploadedBytes ?s \<le> totalBytes files
       \<and> (uploadedBytes ?s = totalBytes files \<longrightarrow>
             (\<forall>i<length files. lastLoaded ?s ! i = int (file_size (files ! i))))
       \<and> ((\<forall>i<length files. lastLoaded ?s ! i = int (file_size (files ! i)))
             \<and> 0 < sum_list (map file_size files) \<longrightarrow>
             uploadedBytes ?s = totalBytes files)"
    if h: "\<forall>e\<in>set es. withinSize files e"
  proof (intro conjI)
    from run_loadedWithinSize [OF h]
    show b: "\<forall>i<length files. 0 \<le> lastLoaded ?s ! i
                          \<and> lastLoaded ?s ! i \<le> int (file_size (files ! i))"
      by (simp add: loadedWithinSize_def)
    then have le: "\<forall>i<length (lastLoaded ?s). lastLoaded ?s ! i \<le> ?sizes ! i"
      using len by simp
    have len2: "length (lastLoaded ?s) = length ?sizes" using len by simp
    show "0 \<le> uploadedBytes ?s"
      unfolding sum using b len by (intro sum_list_nonneg_int) simp
    have upper: "uploadedBytes ?s \<le> sum_list ?sizes"
      unfolding sum by (rule sum_list_pointwise_le [OF len2 le])
    with totalBytes_ge_sum [of files] sizes show "uploadedBytes ?s \<le> totalBytes files"
      by linarith
    show "uploadedBytes ?s = totalBytes files \<longrightarrow>
         (\<forall>i<length files. lastLoaded ?s ! i = int (file_size (files ! i)))"
    proof
      assume "uploadedBytes ?s = totalBytes files"
      with upper totalBytes_ge_sum [of files] sizes
      have "sum_list (lastLoaded ?s) = sum_list ?sizes" unfolding sum by linarith
      from sum_list_pointwise_eq [OF len2 le this] len
      show "\<forall>i<length files. lastLoaded ?s ! i = int (file_size (files ! i))" by simp
    qed
    show "(\<forall>i<length files. lastLoaded ?s ! i = int (file_size (files ! i)))
          \<and> 0 < sum_list (map file_size files) \<longrightarrow> uploadedBytes ?s = totalBytes files"
    proof
      assume a: "(\<forall>i<length files. lastLoaded ?s ! i = int (file_size (files ! i)))
          \<and> 0 < sum_list (map file_size files)"
      with len have "lastLoaded ?s = ?sizes"
        by (simp add: list_eq_iff_nth_eq)
      then have "uploadedBytes ?s = int (sum_list (map file_size files))"
        unfolding sum using sizes by (simp only:)
      moreover from a have "totalBytes files = int (sum_list (map file_size files))"
        using totalBytes_cases [of files] by (auto simp del: sum_list_eq_0_iff)
      ultimately show "uploadedBytes ?s = totalBytes files" by simp
    qed
  qed
  show ?thesis
  proof (intro conjI)
    show "uploadedBytes ?s = sum_list (lastLoaded ?s)" by (rule sum)
    show "length (lastLoaded ?s) = length files" by (rule len)
    show "\<forall>i. settles e = Some i \<longrightarrow>
      uploadedBytes (step files ?s e) = uploadedBytes ?s" by (rule fail)
    show "(\<forall>e\<in>set es. withinSize files e) \<longrightarrow>
         (\<forall>i<length files. 0 \<le> lastLoaded ?s ! i
                          \<and> lastLoaded ?s ! i \<le> int (file_size (files ! i)))
       \<and> 0 \<le> uploadedBytes ?s
       \<and> uploadedBytes ?s \<le> totalBytes files
       \<and> (uploadedBytes ?s = totalBytes files \<longrightarrow>
             (\<forall>i<length files. lastLoaded ?s ! i = int (file_size (files ! i))))
       \<and> ((\<forall>i<length files. lastLoaded ?s ! i = int (file_size (files ! i)))
             \<and> 0 < sum_list (map file_size files) \<longrightarrow>
             uploadedBytes ?s = totalBytes files)"
      using bounded by (rule impI)
  qed
qed

theorem uploadedBytes_accounting_witness:
  "list_all (withinSize [plainFile ''a'' 100, plainFile ''b'' 200])
      [Progress 0 True 60, Progress 1 True 200, Progress 0 True 100, Load 0 200 None,
       NetworkError 1]
   \<and> uploadedBytes (run [plainFile ''a'' 100, plainFile ''b'' 200]
        [Progress 0 True 60, Progress 1 True 200, Progress 0 True 100, Load 0 200 None,
         NetworkError 1]) \<le> totalBytes [plainFile ''a'' 100, plainFile ''b'' 200]
   \<and> uploadedBytes (run [plainFile ''a'' 100, plainFile ''b'' 200]
        [Progress 0 True 60, Progress 1 True 200, Progress 0 True 100, Load 0 200 None,
         NetworkError 1]) = 300
   \<and> totalBytes [plainFile ''a'' 100, plainFile ''b'' 200] = 300
   \<and> lastLoaded (run [plainFile ''a'' 100, plainFile ''b'' 200]
        [Progress 0 True 60, Progress 1 True 200, Progress 0 True 100, Load 0 200 None,
         NetworkError 1]) = [100, 200]"
proof -
  let ?F = "[plainFile ''a'' 100, plainFile ''b'' 200]"
  let ?es = "[Progress 0 True 60, Progress 1 True 200, Progress 0 True 100, Load 0 200 None,
              NetworkError 1]"
  have h: "\<forall>e\<in>set ?es. withinSize ?F e"
    by (simp add: plainFile_def)
  have l: "lastLoaded (run ?F ?es) = [100, 200]"
    by (simp add: upload_eval)
  have t: "totalBytes ?F = 300"
    by (simp add: totalBytes_def plainFile_def)
  from uploadedBytes_accounting [of ?F ?es, THEN conjunct1]
  have u: "uploadedBytes (run ?F ?es) = 300"
    unfolding l by simp
  from uploadedBytes_accounting [of ?F ?es, THEN conjunct2, THEN conjunct2, THEN conjunct2,
      THEN mp, OF h]
  have b: "uploadedBytes (run ?F ?es) \<le> totalBytes ?F"
    by blast
  from h have "list_all (withinSize ?F) ?es"
    by (simp only: list_all_iff)
  with u b l t show ?thesis by simp
qed

text \<open>Claim C2 as stated fails twice. The \<^verbatim>\<open>loaded\<close> of an upload progress event counts
  the bytes of the request body, which holds the file and the form fields: for a file
  of 100 bytes an event with \<^verbatim>\<open>loaded = 150\<close> gives \<open>uploadedBytes = 150 > totalBytes\<close>.
  And a file that fails without a progress event leaves \<open>uploadedBytes\<close> at 0 when the
  run has settled: its declared size is not added.\<close>

theorem uploadedBytes_counterexample:
  "\<not> uploadedBytes (run [plainFile ''a'' 100] [Progress 0 True 150])
        \<le> totalBytes [plainFile ''a'' 100]
   \<and> settled (run [plainFile ''a'' 100] [NetworkError 0])
   \<and> uploadedBytes (run [plainFile ''a'' 100] [NetworkError 0]) = 0
   \<and> totalBytes [plainFile ''a'' 100] = 100"
  by (simp add: upload_eval)

text \<open>
  Claim C3, as the code has it. A progress event of a file in flight whose length is
  computable adds the difference between its \<^verbatim>\<open>loaded\<close> and the file's last reported
  value to \<open>uploadedBytes\<close>, records the new value, and reports
  \<^verbatim>\<open>Math.min(100, Math.round((uploadedBytes / totalBytes) * 100))\<close>, computed in double
  precision. For a batch of at most \<open>2 ^ 43\<close> bytes and \<open>uploadedBytes\<close> not negative,
  this is the exact percentage rounded to the nearest integer and capped at 100,
  unless the exact percentage is halfway between two integers: then it is that value
  or the one below it. An event whose length is not computable changes nothing.
\<close>

theorem progress_event_accounting:
  assumes "workerOf s i = Some w"
  shows "step files s (Progress i False loaded) = s
       \<and> (let uploaded = uploadedBytes s + (loaded - lastLoaded s ! i);
              s' = step files s (Progress i True loaded)
          in s' = s\<lparr>lastLoaded := (lastLoaded s)[i := loaded],
                     uploadedBytes := uploaded,
                     percent := min 100 (js_round (toDouble
                        (toDouble (real_of_int uploaded / real_of_int (totalBytes files)) * 100)))\<rparr>
           \<and> (0 \<le> uploaded \<and> totalBytes files \<le> 2 ^ 43 \<longrightarrow>
                 (\<not> halfwayPercent uploaded (totalBytes files) \<longrightarrow>
                    percent s' = min 100 (exactRoundedPercent uploaded (totalBytes files)))
               \<and> (percent s' = min 100 (exactRoundedPercent uploaded (totalBytes files))
                  \<or> percent s' = min 100 (exactRoundedPercent uploaded (totalBytes files) - 1))))"
proof -
  let ?u = "uploadedBytes s + (loaded - lastLoaded s ! i)"
  let ?s' = "step files s (Progress i True loaded)"
  have a: "step files s (Progress i False loaded) = s"
    using assms by (simp add: step_def onProgress_def)
  have b: "?s' = s\<lparr>lastLoaded := (lastLoaded s)[i := loaded], uploadedBytes := ?u,
           percent := percentOf ?u (totalBytes files)\<rparr>"
    using assms by (simp add: step_def onProgress_def Let_def)
  have c: "percent ?s' = percentOf ?u (totalBytes files)"
    unfolding b by simp
  have b': "?s' = s\<lparr>lastLoaded := (lastLoaded s)[i := loaded], uploadedBytes := ?u,
           percent := min 100 (js_round (toDouble
              (toDouble (real_of_int ?u / real_of_int (totalBytes files)) * 100)))\<rparr>"
    using b by (simp only: percentOf_def)
  have d: "(\<not> halfwayPercent ?u (totalBytes files) \<longrightarrow>
              percent ?s' = min 100 (exactRoundedPercent ?u (totalBytes files)))
         \<and> (percent ?s' = min 100 (exactRoundedPercent ?u (totalBytes files))
            \<or> percent ?s' = min 100 (exactRoundedPercent ?u (totalBytes files) - 1))"
    if "0 \<le> ?u" "totalBytes files \<le> 2 ^ 43"
    using percentOf_cases [OF that(1) totalBytes_pos that(2)]
    unfolding c halfwayPercent_def exactRoundedPercent_def .
  from a b' d show ?thesis
    unfolding Let_def by blast
qed

theorem progress_event_accounting_witness:
  "workerOf (startRun [plainFile ''a'' 3]) 0 = Some 0
   \<and> uploadedBytes (step [plainFile ''a'' 3] (startRun [plainFile ''a'' 3]) (Progress 0 True 2)) = 2
   \<and> percent (step [plainFile ''a'' 3] (startRun [plainFile ''a'' 3]) (Progress 0 True 2)) = 67
   \<and> step [plainFile ''a'' 3] (startRun [plainFile ''a'' 3]) (Progress 0 False 2)
       = startRun [plainFile ''a'' 3]"
proof -
  let ?F = "[plainFile ''a'' 3]"
  let ?s' = "step ?F (startRun ?F) (Progress 0 True 2)"
  have w: "workerOf (startRun ?F) 0 = Some 0"
    by (simp add: upload_eval)
  have t: "totalBytes ?F = 3" "uploadedBytes (startRun ?F) = 0" "lastLoaded (startRun ?F) ! 0 = 0"
    by (simp_all add: upload_eval)
  note inst = progress_event_accounting [OF w, of ?F 2, unfolded Let_def t]
  have h: "(0 :: int) \<le> 0 + (2 - 0) \<and> (3 :: int) \<le> 2 ^ 43"
    by simp
  have n: "\<not> halfwayPercent (0 + (2 - 0)) 3"
    by (simp add: halfwayPercent_def)
  have e: "min 100 (exactRoundedPercent (0 + (2 - 0)) 3) = 67"
    by (simp add: exactRoundedPercent_def)
  from inst [THEN conjunct2, THEN conjunct2, THEN mp, OF h, THEN conjunct1, THEN mp, OF n]
  have p: "percent ?s' = 67"
    unfolding e .
  from inst [THEN conjunct2, THEN conjunct1] have "uploadedBytes ?s' = 0 + (2 - 0)"
    by simp
  then have u: "uploadedBytes ?s' = 2"
    by simp
  from w u p inst [THEN conjunct1] show ?thesis
    by (simp only: simp_thms)
qed

text \<open>Claim C3 as stated (the percentage is the floor) fails for 2 bytes of 3: the code
  reports 67, the floor is 66.\<close>

theorem progress_percent_counterexample:
  "percent (run [plainFile ''a'' 3] [Progress 0 True 2]) = 67
   \<and> specFloorPercent (uploadedBytes (run [plainFile ''a'' 3] [Progress 0 True 2]))
                       (totalBytes [plainFile ''a'' 3]) = 66"
  by (simp add: upload_eval specFloorPercent_def)

text \<open>
  The percentage at a half. 23 bytes of 40 are 57.5 percent exactly: the quotient
  \<^verbatim>\<open>23 / 40\<close> is the double just below 0.575, its product with 100 is the double just
  below 57.5, and the code reports 57. One byte of 8 is 12.5 percent, every step is
  exact, and the code reports 13.
\<close>

theorem progress_percent_at_half:
  "percent (run [plainFile ''a'' 40] [Progress 0 True 23]) = 57
   \<and> exactRoundedPercent 23 40 = 58
   \<and> percent (run [plainFile ''a'' 8] [Progress 0 True 1]) = 13
   \<and> exactRoundedPercent 1 8 = 13"
  by (simp add: upload_eval percentOf_23_of_40 percentOf_1_of_8 exactRoundedPercent_def)

text \<open>
  Claim C5. In every state of a run, reached by any sequence of browser events, at most
  \<open>concurrency = 3\<close> requests are in flight; the requests sent so far are those of the
  files \<open>0, ..., cursor - 1\<close>, each once and in order, and every file in flight is among
  them; the run settles exactly when as many requests have settled as the batch has
  files, and then the requests sent are those of all the files, each exactly once.
  (A worker's read and increment of the cursor is one step of the model, as it lies
  between two \<^verbatim>\<open>await\<close>s in the code.)
\<close>

theorem upload_run_bounded_parallelism:
  "length (inFlight (run files es)) \<le> concurrency
   \<and> cursor (run files es) \<le> length files
   \<and> sent (run files es) = [0..<cursor (run files es)]
   \<and> (\<forall>i\<in>set (inFlight (run files es)). i < cursor (run files es))
   \<and> (settled (run files es) \<longleftrightarrow> settlements files (startRun files) es = length files)
   \<and> (settled (run files es) \<longrightarrow> sent (run files es) = [0..<length files])"
proof -
  have wf: "wellFormed files (run files es)" by (rule run_wellFormed)
  from wf have "cursor (run files es) \<le> length files"
    and "sent (run files es) = [0..<cursor (run files es)]"
    and "\<forall>i\<in>set (inFlight (run files es)). i < cursor (run files es)"
    by (simp_all add: wellFormed_def)
  with inFlight_le_concurrency [OF wf] run_settled_iff [of files es] run_settled_sent [of files es]
  show ?thesis by blast
qed

theorem upload_run_bounded_parallelism_witness:
  "settled (run [plainFile ''a'' 100, plainFile ''b'' 200, plainFile ''c'' 300, plainFile ''d'' 400]
             [Load 0 200 None, Load 1 200 None, Load 2 500 None, NetworkError 3])
   \<and> sent (run [plainFile ''a'' 100, plainFile ''b'' 200, plainFile ''c'' 300, plainFile ''d'' 400]
             [Load 0 200 None, Load 1 200 None, Load 2 500 None, NetworkError 3]) = [0, 1, 2, 3]
   \<and> inFlight (run [plainFile ''a'' 100, plainFile ''b'' 200, plainFile ''c'' 300, plainFile ''d'' 400]
             [Load 0 200 None]) = [3, 1, 2]"
proof -
  let ?F = "[plainFile ''a'' 100, plainFile ''b'' 200, plainFile ''c'' 300, plainFile ''d'' 400]"
  let ?es = "[Load 0 200 None, Load 1 200 None, Load 2 500 None, NetworkError 3]"
  have n: "settlements ?F (startRun ?F) ?es = length ?F"
    by (simp add: upload_eval)
  have i: "inFlight (run ?F [Load 0 200 None]) = [3, 1, 2]"
    by (simp add: upload_eval)
  from upload_run_bounded_parallelism [of ?F ?es] n
  have "settled (run ?F ?es)" and "sent (run ?F ?es) = [0..<length ?F]"
    by blast+
  moreover have "[0..<length ?F] = [0, 1, 2, 3]" by (simp add: upt_rec)
  ultimately show ?thesis using i by simp
qed

text \<open>
  Claim C9 fails in the code for a failure that \<^verbatim>\<open>uploadAssetWithProgress\<close> reports
  through \<^verbatim>\<open>onError\<close>. A batch of one file whose request ends with the \<^verbatim>\<open>error\<close> event, or
  with the status 500: \<^verbatim>\<open>uploadAssetWithProgress\<close> calls \<^verbatim>\<open>onError\<close> and then rejects; the
  \<^verbatim>\<open>onError\<close> callback of \<^verbatim>\<open>uploadOne\<close> appends the line \<^verbatim>\<open><filename>: <message>\<close>, and the
  \<^verbatim>\<open>catch\<close> of \<^verbatim>\<open>uploadOne\<close> appends it again. When the run has settled the error list
  holds the line twice for the one failed file, not once as the claim has it. A response
  with status 200 that does not parse only rejects, and its line is there once.
\<close>

theorem upload_failure_recorded_twice:
  "settled (run [plainFile ''a.jpg'' 10] [NetworkError 0])
   \<and> uploadErrors (run [plainFile ''a.jpg'' 10] [NetworkError 0])
       = [''a.jpg: '' @ uploadFailedMessage, ''a.jpg: '' @ uploadFailedMessage]
   \<and> settled (run [plainFile ''a.jpg'' 10] [Load 0 500 None])
   \<and> uploadErrors (run [plainFile ''a.jpg'' 10] [Load 0 500 None])
       = [''a.jpg: '' @ uploadFailedMessage, ''a.jpg: '' @ uploadFailedMessage]
   \<and> uploadErrors (run [plainFile ''a.jpg'' 10] [Load 0 200 (Some ''Unexpected end of JSON input'')])
       = [''a.jpg: Unexpected end of JSON input'']"
  by (simp add: upload_eval)

text \<open>
  What holds of a failure in every run. When the request of a file in flight fails, the
  line \<^verbatim>\<open><filename>: <message>\<close> is appended to \<open>uploadErrors\<close> (twice when the failure is
  reported through \<^verbatim>\<open>onError\<close>: the \<^verbatim>\<open>error\<close> event or a status outside 200 to 299; once
  when the response does not parse); \<open>uploadedBytes\<close> and the other workers are left as
  they are; the worker of the failed file claims the next unclaimed file, if there is
  one; and however the run goes on, once as many requests have settled as the batch
  has files the run is settled and every file of the batch has been attempted once.
\<close>

theorem upload_failure_isolated:
  assumes "workerOf (run files es) i = Some w"
  shows "(let s = run files es;
              failed = file_name (files ! i) @ '': '' @ uploadFailedMessage
          in uploadErrors (step files s (NetworkError i)) = uploadErrors s @ [failed, failed]
           \<and> (\<forall>status parseError. \<not> (200 \<le> status \<and> status < 300) \<longrightarrow>
                 uploadErrors (step files s (Load i status parseError))
                   = uploadErrors s @ [failed, failed])
           \<and> (\<forall>status message. 200 \<le> status \<and> status < 300 \<longrightarrow>
                 uploadErrors (step files s (Load i status (Some message)))
                   = uploadErrors s @ [file_name (files ! i) @ '': '' @ message])
           \<and> (\<forall>e. settles e = Some i \<longrightarrow>
                 uploadedBytes (step files s e) = uploadedBytes s
               \<and> (\<forall>v. v \<noteq> w \<longrightarrow> workers (step files s e) ! v = workers s ! v)
               \<and> (cursor s < length files \<longrightarrow>
                     workers (step files s e) ! w = Awaiting (cursor s)
                   \<and> sent (step files s e) = sent s @ [cursor s])
               \<and> (\<forall>es'. settlements files (startRun files) (es @ e # es') = length files \<longrightarrow>
                     settled (run files (es @ e # es'))
                   \<and> sent (run files (es @ e # es')) = [0..<length files])))"
proof -
  let ?s = "run files es"
  note w = workerOf_inFlight(1) [OF assms]
  have claim: "uploadedBytes (claimNext files w t) = uploadedBytes t
      \<and> uploadErrors (claimNext files w t) = uploadErrors t
      \<and> (\<forall>v. v \<noteq> w \<longrightarrow> workers (claimNext files w t) ! v = workers t ! v)
      \<and> (cursor t < length files \<longrightarrow>
            (w < length (workers t) \<longrightarrow> workers (claimNext files w t) ! w = Awaiting (cursor t))
          \<and> sent (claimNext files w t) = sent t @ [cursor t])" for t
    by (simp add: claimNext_def)
  have later: "settlements files (startRun files) (es @ e # es') = length files \<longrightarrow>
        settled (run files (es @ e # es'))
      \<and> sent (run files (es @ e # es')) = [0..<length files]" for e es'
    using run_settled_iff [of files "es @ e # es'"] run_settled_sent [of files "es @ e # es'"]
    by blast
  have ev: "settles e = Some i \<longrightarrow>
                 uploadedBytes (step files ?s e) = uploadedBytes ?s
               \<and> (\<forall>v. v \<noteq> w \<longrightarrow> workers (step files ?s e) ! v = workers ?s ! v)
               \<and> (cursor ?s < length files \<longrightarrow>
                     workers (step files ?s e) ! w = Awaiting (cursor ?s)
                   \<and> sent (step files ?s e) = sent ?s @ [cursor ?s])" for e
    using assms w claim [of ?s] claim [of "failedViaOnError files i ?s"]
      claim [of "failedByReject files i m ?s" for m]
    by (cases e) (auto simp: step_def failedViaOnError_def failedByReject_def
        split: option.splits)
  have errs: "uploadErrors (step files ?s (NetworkError i))
        = uploadErrors ?s @ [errorLine (files ! i) uploadFailedMessage,
                              errorLine (files ! i) uploadFailedMessage]"
    "\<not> (200 \<le> status \<and> status < 300) \<Longrightarrow>
       uploadErrors (step files ?s (Load i status parseError))
        = uploadErrors ?s @ [errorLine (files ! i) uploadFailedMessage,
                              errorLine (files ! i) uploadFailedMessage]"
    "200 \<le> status \<and> status < 300 \<Longrightarrow>
       uploadErrors (step files ?s (Load i status (Some message)))
        = uploadErrors ?s @ [errorLine (files ! i) message]" for status parseError message
  proof -
    show "uploadErrors (step files ?s (NetworkError i))
        = uploadErrors ?s @ [errorLine (files ! i) uploadFailedMessage,
                              errorLine (files ! i) uploadFailedMessage]"
      using assms claim [of "failedViaOnError files i ?s"]
      by (simp add: step_def failedViaOnError_def)
    show "uploadErrors (step files ?s (Load i status parseError))
        = uploadErrors ?s @ [errorLine (files ! i) uploadFailedMessage,
                              errorLine (files ! i) uploadFailedMessage]"
      if "\<not> (200 \<le> status \<and> status < 300)"
      using that assms claim [of "failedViaOnError files i ?s"]
      by (auto simp: step_def failedViaOnError_def)
    show "uploadErrors (step files ?s (Load i status (Some message)))
        = uploadErrors ?s @ [errorLine (files ! i) message]"
      if "200 \<le> status \<and> status < 300"
      using that assms claim [of "failedByReject files i message ?s"]
      by (simp add: step_def failedByReject_def)
  qed
  show ?thesis
    unfolding Let_def using errs ev later by (simp add: errorLine_def)
qed

theorem upload_failure_isolated_witness:
  "workerOf (run [plainFile ''a'' 100, plainFile ''b'' 200, plainFile ''c'' 300, plainFile ''d'' 400] []) 0
     = Some 0
   \<and> uploadErrors (step [plainFile ''a'' 100, plainFile ''b'' 200, plainFile ''c'' 300, plainFile ''d'' 400]
        (run [plainFile ''a'' 100, plainFile ''b'' 200, plainFile ''c'' 300, plainFile ''d'' 400] [])
        (NetworkError 0))
     = [''a: '' @ uploadFailedMessage, ''a: '' @ uploadFailedMessage]
   \<and> workers (step [plainFile ''a'' 100, plainFile ''b'' 200, plainFile ''c'' 300, plainFile ''d'' 400]
        (run [plainFile ''a'' 100, plainFile ''b'' 200, plainFile ''c'' 300, plainFile ''d'' 400] [])
        (NetworkError 0))
     = [Awaiting 3, Awaiting 1, Awaiting 2]
   \<and> sent (run [plainFile ''a'' 100, plainFile ''b'' 200, plainFile ''c'' 300, plainFile ''d'' 400]
        [NetworkError 0, Load 1 200 None, Load 2 200 (Some ''bad''), Load 3 404 None])
     = [0, 1, 2, 3]"
proof -
  let ?F = "[plainFile ''a'' 100, plainFile ''b'' 200, plainFile ''c'' 300, plainFile ''d'' 400]"
  let ?es' = "[Load 1 200 None, Load 2 200 (Some ''bad''), Load 3 404 None]"
  have w: "workerOf (run ?F []) 0 = Some 0"
    by (simp add: upload_eval)
  have f: "file_name (?F ! 0) = ''a''" "uploadErrors (run ?F []) = []"
    "cursor (run ?F []) = 3" "sent (run ?F []) = [0, 1, 2]"
    "workers (run ?F []) = [Awaiting 0, Awaiting 1, Awaiting 2]"
    by (simp_all add: upload_eval)
  have n: "settlements ?F (startRun ?F) ([] @ NetworkError 0 # ?es') = length ?F"
    by (simp add: upload_eval)
  note t = upload_failure_isolated [OF w, unfolded Let_def]
  from t [THEN conjunct1] have e: "uploadErrors (step ?F (run ?F []) (NetworkError 0))
      = [''a: '' @ uploadFailedMessage, ''a: '' @ uploadFailedMessage]"
    unfolding f(1) f(2) by simp
  from t have k: "settles (NetworkError 0) = Some 0 \<longrightarrow>
                 uploadedBytes (step ?F (run ?F []) (NetworkError 0)) = uploadedBytes (run ?F [])
               \<and> (\<forall>v. v \<noteq> 0 \<longrightarrow> workers (step ?F (run ?F []) (NetworkError 0)) ! v
                       = workers (run ?F []) ! v)
               \<and> (cursor (run ?F []) < length ?F \<longrightarrow>
                     workers (step ?F (run ?F []) (NetworkError 0)) ! 0 = Awaiting (cursor (run ?F []))
                   \<and> sent (step ?F (run ?F []) (NetworkError 0)) = sent (run ?F []) @ [cursor (run ?F [])])
               \<and> (\<forall>es'. settlements ?F (startRun ?F) ([] @ NetworkError 0 # es') = length ?F \<longrightarrow>
                     settled (run ?F ([] @ NetworkError 0 # es'))
                   \<and> sent (run ?F ([] @ NetworkError 0 # es')) = [0..<length ?F])"
    by blast
  then have s: "sent (run ?F ([] @ NetworkError 0 # ?es')) = [0..<length ?F]"
    using n by simp
  have ws: "workers (step ?F (run ?F []) (NetworkError 0)) = [Awaiting 3, Awaiting 1, Awaiting 2]"
    by (simp add: upload_eval)
  have "[0..<length ?F] = [0, 1, 2, 3]" by (simp add: upt_rec)
  with w e ws s show ?thesis by simp
qed

text \<open>
  The scenario of the specification: a batch of three files of 100, 200 and 300 bytes,
  each reporting its full size and then loading with status 200. \<open>totalBytes\<close> is 600,
  the run settles with \<open>uploadedBytes = 600\<close>, the percentage 100 and no error, every
  file sent once.
\<close>

theorem upload_three_files_scenario:
  "totalBytes [plainFile ''a'' 100, plainFile ''b'' 200, plainFile ''c'' 300] = 600
   \<and> run [plainFile ''a'' 100, plainFile ''b'' 200, plainFile ''c'' 300]
         [Progress 0 True 100, Progress 2 True 150, Load 0 200 None, Progress 1 True 200,
          Progress 2 True 300, Load 2 200 None, Load 1 200 None]
     = \<lparr>cursor = 3, uploadedBytes = 600, lastLoaded = [100, 200, 300], uploadErrors = [],
        percent = 100, current = ''c'', index = 3, sent = [0, 1, 2],
        workers = [Returned, Returned, Returned]\<rparr>"
  by (simp add: upload_eval)



section \<open>Lemmas on the DirectoryCollector\<close>

lemma readLoop_eq:
  "readLoop entries reader =
     (if None \<in> set (takeWhile (\<lambda>answer. answer \<noteq> Some []) reader) then Pending
      else Fulfilled (entries @ specChildren reader))"
proof (induction entries reader rule: readLoop.induct)
  case (1 entries)
  then show ?case by (simp add: specChildren_def)
next
  case (2 entries answers)
  then show ?case by simp
next
  case (3 entries batch answers)
  then show ?case by (simp add: specChildren_def)
qed

lemma readAllEntries_eq:
  "readAllEntries reader =
     (if None \<in> set (takeWhile (\<lambda>answer. answer \<noteq> Some []) reader) then Pending
      else Fulfilled (specChildren reader))"
  by (simp add: readAllEntries_def readLoop_eq)

lemma traverse_depth_first:
  "traverseEntry e files prefix = Fulfilled files' \<Longrightarrow> files' = files @ specDepthFirst prefix e"
  "traverseChildren es files prefix = Fulfilled files' \<Longrightarrow>
     files' = files @ concat (map (specDepthFirst prefix) es)"
proof (induction e files prefix and es files prefix arbitrary: files' and files'
    rule: traverseEntry_traverseChildren.induct)
  case (1 result files prefix)
  then show ?case by (cases result) auto
next
  case (2 name reader files prefix)
  then show ?case
    by (auto simp: readAllEntries_eq split: if_splits)
next
  case (3 files prefix)
  then show ?case by simp
next
  case (4 files prefix)
  then show ?case by simp
next
  case (5 child rest files prefix)
  from "5.prems" obtain files1 where
    a: "traverseEntry child files prefix = Fulfilled files1"
    and b: "traverseChildren rest files1 prefix = Fulfilled files'"
    by (auto split: promise.splits)
  from "5.IH"(1) [OF a] "5.IH"(2) [OF a b] show ?case by simp
qed

lemma traverseChildren_append:
  "traverseChildren (es1 @ es2) files prefix =
     (case traverseChildren es1 files prefix of
        Fulfilled files' \<Rightarrow> traverseChildren es2 files' prefix
      | Rejected error \<Rightarrow> Rejected error
      | Pending \<Rightarrow> Pending)"
  by (induction es1 arbitrary: files) (auto split: promise.splits)


lemma collectItems_append:
  "collectItems (is1 @ is2) files =
     (case collectItems is1 files of
        Fulfilled files' \<Rightarrow> collectItems is2 files'
      | Rejected error \<Rightarrow> Rejected error
      | Pending \<Rightarrow> Pending)"
  by (induction is1 files rule: collectItems.induct) (auto split: promise.splits)

lemmas collector_eval = readAllEntries_def withPrefix_def plainFile_def getFilesFromDataTransfer_def


section \<open>Claims on the DirectoryCollector\<close>



text \<open>
  Claim C8, as the code has it. An unreadable file entry is not skipped: \<^verbatim>\<open>entry.file\<close>
  rejects, \<open>traverseEntry\<close> has no \<^verbatim>\<open>catch\<close>, and the rejection goes up through every
  enclosing directory and through \<open>getFilesFromDataTransfer\<close>: the entries after the
  unreadable one are not visited and no descriptor is returned. Only an entry that is
  neither a file nor a directory is passed over silently. When the traversal is
  fulfilled, the descriptors of all the leaves are produced.
\<close>

theorem unreadable_entry_rejects_collection:
  "traverseEntry (FileEntry (Inl error)) files prefix = Rejected error
   \<and> traverseEntry OtherEntry files prefix = Fulfilled files
   \<and> (traverseChildren before files prefix = Fulfilled files'
        \<and> traverseEntry child files' prefix = Rejected error \<longrightarrow>
        traverseChildren (before @ child # after) files prefix = Rejected error)
   \<and> (readAllEntries reader = Fulfilled entries
        \<and> traverseChildren entries files (prefix @ name @ ''/'') = Rejected error \<longrightarrow>
        traverseEntry (DirectoryEntry name reader) files prefix = Rejected error)
   \<and> (dt_files dataTransfer = []
        \<and> dt_items dataTransfer = itemsBefore @ FileItem (Some entry) asFile # itemsAfter
        \<and> collectItems itemsBefore [] = Fulfilled files'
        \<and> traverseEntry entry files' [] = Rejected error \<longrightarrow>
        getFilesFromDataTransfer dataTransfer = Rejected error)
   \<and> (traverseEntry e files prefix = Fulfilled files'' \<longrightarrow>
        files'' = files @ specDepthFirst prefix e)"
  by (auto simp: traverseChildren_append collectItems_append getFilesFromDataTransfer_def
      dest: traverse_depth_first(1))

theorem unreadable_entry_rejects_collection_witness:
  "traverseChildren [FileEntry (Inr (plainFile ''a'' 1))] [] ''d/''
     = Fulfilled [\<lparr>file_name = ''a'', file_size = 1, relativePath = Some ''d/a'',
                    webkitRelativePath = []\<rparr>]
   \<and> traverseEntry (DirectoryEntry ''d''
        [Some [FileEntry (Inr (plainFile ''a'' 1)), FileEntry (Inl ''NotReadableError''),
               FileEntry (Inr (plainFile ''b'' 2))]]) [] []
     = Rejected ''NotReadableError''
   \<and> getFilesFromDataTransfer \<lparr>dt_files = [], dt_items =
        [FileItem (Some (FileEntry (Inr (plainFile ''a'' 1)))) None,
         FileItem (Some (FileEntry (Inl ''NotReadableError''))) None,
         FileItem (Some (FileEntry (Inr (plainFile ''b'' 2)))) None]\<rparr>
     = Rejected ''NotReadableError''"
proof -
  let ?a = "FileEntry (Inr (plainFile ''a'' 1))"
  let ?x = "FileEntry (Inl ''NotReadableError'')"
  let ?b = "FileEntry (Inr (plainFile ''b'' 2))"
  let ?fa = "[\<lparr>file_name = ''a'', file_size = 1, relativePath = Some ''d/a'',
                webkitRelativePath = []\<rparr>]"
  have c: "traverseChildren [?a] [] ''d/'' = Fulfilled ?fa"
    by (simp add: collector_eval)
  have x: "traverseEntry ?x ?fa ''d/'' = Rejected ''NotReadableError''"
    by simp
  have r: "readAllEntries [Some [?a, ?x, ?b]] = Fulfilled ([?a] @ ?x # [?b])"
    by (simp add: readAllEntries_def)
  note inst1 = unreadable_entry_rejects_collection
      [where before = "[?a]" and files = "[]" and prefix = "''d/''" and files' = "?fa"
         and child = "?x" and error = "''NotReadableError''" and after = "[?b]"]
  from inst1 [THEN conjunct2, THEN conjunct2, THEN conjunct1, THEN mp, OF conjI [OF c x]]
  have k: "traverseChildren ([?a] @ ?x # [?b]) [] ''d/'' = Rejected ''NotReadableError''" .
  note inst2 = unreadable_entry_rejects_collection
      [where files = "[]" and prefix = "[]" and error = "''NotReadableError''"
         and reader = "[Some [?a, ?x, ?b]]" and entries = "[?a] @ ?x # [?b]" and name = "''d''"]
  have k': "traverseChildren ([?a] @ ?x # [?b]) [] ([] @ ''d'' @ ''/'') = Rejected ''NotReadableError''"
    using k by simp
  from inst2 [THEN conjunct2, THEN conjunct2, THEN conjunct2, THEN conjunct1, THEN mp,
      OF conjI [OF r k']]
  have d: "traverseEntry (DirectoryEntry ''d'' [Some [?a, ?x, ?b]]) [] []
      = Rejected ''NotReadableError''" .
  have g: "getFilesFromDataTransfer \<lparr>dt_files = [], dt_items =
        [FileItem (Some ?a) None, FileItem (Some ?x) None, FileItem (Some ?b) None]\<rparr>
     = Rejected ''NotReadableError''"
    by (simp add: collector_eval)
  from c d g show ?thesis by (simp only: simp_thms)
qed

text \<open>Claim C8 as stated fails: one unreadable file among the children of a dropped
  directory rejects the whole collection, readable siblings included; and a directory
  whose read fails leaves the collection pending for ever, since \<^verbatim>\<open>readEntries\<close> is
  called without an error callback.\<close>

theorem unreadable_entry_counterexample:
  "getFilesFromDataTransfer \<lparr>dt_files = [], dt_items =
      [FileItem (Some (DirectoryEntry ''d''
         [Some [FileEntry (Inr (plainFile ''a'' 1)), FileEntry (Inl ''NotReadableError''),
                FileEntry (Inr (plainFile ''b'' 2))]])) None]\<rparr>
     = Rejected ''NotReadableError''
   \<and> getFilesFromDataTransfer \<lparr>dt_files = [], dt_items =
      [FileItem (Some (DirectoryEntry ''d'' [Some [FileEntry (Inr (plainFile ''a'' 1))], None])) None,
       FileItem (Some (FileEntry (Inr (plainFile ''b'' 2)))) None]\<rparr>
     = Pending"
  by (simp add: collector_eval)



section \<open>Lemmas on the DuplicateResolver\<close>

lemma set_insertionOrder [simp]: "set (insertionOrder xs) = set xs"
  by (simp add: insertionOrder_def)

lemma distinct_insertionOrder [simp]: "distinct (insertionOrder xs)"
  by (simp add: insertionOrder_def)

lemma toLowerCase_Nil_iff [simp]: "toLowerCase s = [] \<longleftrightarrow> s = []"
  by (simp add: toLowerCase_def)

lemma set_dupNames: "set (dupNames files existing) = collidingNames files existing"
  by (auto simp: dupNames_def existingNames_def collidingNames_def)

lemma distinct_dupNames: "distinct (dupNames files existing)"
  by (simp add: dupNames_def)


lemmas duplicate_eval =
  duplicateCheck_def hasNestedPath_def fetchAssets_def dupNames_def existingNames_def
  insertionOrder_def toLowerCase_def lowerChar_def isUpperCase_def plainFile_def Let_def


section \<open>Claims on the DuplicateResolver\<close>

text \<open>
  Claim C4, as the code has it, for a non-empty batch and an active folder. If a
  candidate file carries a \<open>relativePath\<close> that contains \<^verbatim>\<open>/\<close>, the duplicate check is
  bypassed: the backend is not asked. Otherwise, if the list of the folder's assets is
  fetched, the colliding names are the non-empty candidate names that equal, in
  lowercase, the name of an existing asset; when there is one, the prompt is opened
  with their number and the first five of them (in lowercase, in the order of the
  candidates, joined by a comma and a space), and when there is none, no prompt is
  opened. If fetching the list fails, an alert is shown and no prompt is opened.
\<close>

theorem duplicate_check_decision:
  assumes "files \<noteq> []"
  shows "(hasNestedPath files \<longrightarrow> duplicateCheck srv files (Some folderId) = Bypassed)
       \<and> (\<not> hasNestedPath files \<and> fetchAssets srv [(''folder_id'', folderId)] = Inl message \<longrightarrow>
            duplicateCheck srv files (Some folderId) = CheckFailedAlert message)
       \<and> (\<not> hasNestedPath files \<and> fetchAssets srv [(''folder_id'', folderId)] = Inr existing \<longrightarrow>
            set (dupNames files existing) = collidingNames files existing
          \<and> distinct (dupNames files existing)
          \<and> length (dupNames files existing) = card (collidingNames files existing)
          \<and> (collidingNames files existing \<noteq> {} \<longrightarrow>
                duplicateCheck srv files (Some folderId)
                  = DuplicatePrompt (card (collidingNames files existing))
                      (joinWith '', '' (take 5 (dupNames files existing))))
          \<and> (collidingNames files existing = {} \<longrightarrow>
                duplicateCheck srv files (Some folderId) = NoDuplicates))"
proof -
  have len: "length (dupNames files existing) = card (collidingNames files existing)" for existing
    using distinct_card [OF distinct_dupNames, of files existing] by (simp add: set_dupNames)
  have ne: "dupNames files existing \<noteq> [] \<longleftrightarrow> collidingNames files existing \<noteq> {}" for existing
    using set_dupNames [of files existing] by auto
  show ?thesis
    using assms by (auto simp: duplicateCheck_def Let_def set_dupNames distinct_dupNames len ne)
qed

theorem duplicate_check_decision_witness:
  "duplicateCheck \<lparr>failure = None,
            respond = (\<lambda>query. [\<lparr>asset_id = 1, filename = ''A.jpg'', colors = [],
                                   format = Some ''jpg''\<rparr>])\<rparr>
        [plainFile ''a.jpg'' 10, plainFile ''b.png'' 20] (Some ''7'')
     = DuplicatePrompt 1 ''a.jpg''
   \<and> duplicateCheck \<lparr>failure = None,
            respond = (\<lambda>query. [\<lparr>asset_id = 1, filename = ''A.jpg'', colors = [],
                                   format = Some ''jpg''\<rparr>])\<rparr>
        [(plainFile ''a.jpg'' 10)\<lparr>relativePath := Some ''dir/a.jpg''\<rparr>, plainFile ''b.png'' 20]
        (Some ''7'')
     = Bypassed"
proof -
  let ?S = "\<lparr>failure = None,
            respond = (\<lambda>query. [\<lparr>asset_id = 1, filename = ''A.jpg'', colors = [],
                                   format = Some ''jpg''\<rparr>])\<rparr>"
  let ?E = "[\<lparr>asset_id = 1, filename = ''A.jpg'', colors = [], format = Some ''jpg''\<rparr>]"
  let ?F = "[plainFile ''a.jpg'' 10, plainFile ''b.png'' 20]"
  let ?G = "[(plainFile ''a.jpg'' 10)\<lparr>relativePath := Some ''dir/a.jpg''\<rparr>, plainFile ''b.png'' 20]"
  have f: "?F \<noteq> []" and g: "?G \<noteq> []" by simp_all
  have n: "\<not> hasNestedPath ?F \<and> fetchAssets ?S [(''folder_id'', ''7'')] = Inr ?E"
    by (simp add: duplicate_eval)
  have d: "dupNames ?F ?E = [''a.jpg'']"
    by (simp add: duplicate_eval)
  have c: "collidingNames ?F ?E \<noteq> {}"
    using set_dupNames [of ?F ?E] unfolding d by auto
  have k: "card (collidingNames ?F ?E) = 1"
    using set_dupNames [of ?F ?E, symmetric] unfolding d by simp
  from duplicate_check_decision [OF f, THEN conjunct2, THEN conjunct2, THEN mp, OF n]
  have "collidingNames ?F ?E \<noteq> {} \<longrightarrow>
          duplicateCheck ?S ?F (Some ''7'')
            = DuplicatePrompt (card (collidingNames ?F ?E)) (joinWith '', '' (take 5 (dupNames ?F ?E)))"
    by blast
  with c have p: "duplicateCheck ?S ?F (Some ''7'') = DuplicatePrompt 1 ''a.jpg''"
    unfolding k d by simp
  have h: "hasNestedPath ?G" by (simp add: duplicate_eval)
  from duplicate_check_decision [OF g, THEN conjunct1, THEN mp, OF h]
  have b: "duplicateCheck ?S ?G (Some ''7'') = Bypassed" .
  from p b show ?thesis by (simp only: simp_thms)
qed

text \<open>Claim C4 as stated (with a colliding name the prompt is always triggered) fails when
  the request for the folder's assets fails: the folder holds \<^verbatim>\<open>A.jpg\<close>, the batch holds
  \<^verbatim>\<open>a.jpg\<close>, and the code shows the alert of its \<^verbatim>\<open>catch\<close> and goes on to upload.\<close>

theorem duplicate_check_counterexample:
  "respond \<lparr>failure = Some ''Failed to fetch'',
            respond = (\<lambda>query. [\<lparr>asset_id = 1, filename = ''A.jpg'', colors = [],
                                   format = Some ''jpg''\<rparr>])\<rparr> [(''folder_id'', ''7'')]
     = [\<lparr>asset_id = 1, filename = ''A.jpg'', colors = [], format = Some ''jpg''\<rparr>]
   \<and> toLowerCase ''a.jpg'' = toLowerCase ''A.jpg''
   \<and> \<not> hasNestedPath [plainFile ''a.jpg'' 10, plainFile ''b.png'' 20]
   \<and> duplicateCheck \<lparr>failure = Some ''Failed to fetch'',
            respond = (\<lambda>query. [\<lparr>asset_id = 1, filename = ''A.jpg'', colors = [],
                                   format = Some ''jpg''\<rparr>])\<rparr>
        [plainFile ''a.jpg'' 10, plainFile ''b.png'' 20] (Some ''7'')
     = CheckFailedAlert ''Failed to fetch''"
  by (simp add: duplicate_eval)



section \<open>Lemmas on the FacetFilterEngine\<close>

lemma set_insertSorted [simp]: "set (insertSorted cmp x xs) = insert x (set xs)"
  by (induction xs) auto

lemma distinct_insertSorted:
  "distinct xs \<Longrightarrow> x \<notin> set xs \<Longrightarrow> distinct (insertSorted cmp x xs)"
  by (induction xs) auto

lemma sorted_insertSorted:
  assumes total: "\<forall>a b. cmp a b \<le> 0 \<or> cmp b a \<le> 0"
    and trans: "\<forall>a b c. cmp a b \<le> 0 \<and> cmp b c \<le> 0 \<longrightarrow> cmp a c \<le> 0"
    and "sorted_wrt (\<lambda>a b. cmp a b \<le> 0) xs"
  shows "sorted_wrt (\<lambda>a b. cmp a b \<le> 0) (insertSorted cmp x xs)"
  using assms(3)
proof (induction xs)
  case Nil
  then show ?case by simp
next
  case (Cons y ys)
  from Cons.prems have yz: "\<forall>z\<in>set ys. cmp y z \<le> 0"
    and s: "sorted_wrt (\<lambda>a b. cmp a b \<le> 0) ys"
    by simp_all
  show ?case
  proof (cases "cmp x y \<le> 0")
    case True
    have "\<forall>z\<in>set ys. cmp x z \<le> 0"
    proof
      fix z
      assume "z \<in> set ys"
      with yz have "cmp y z \<le> 0" by blast
      with True trans show "cmp x z \<le> 0" by blast
    qed
    with True yz s show ?thesis by simp
  next
    case False
    with total have "cmp y x \<le> 0" by blast
    with yz have "\<forall>z\<in>set (insertSorted cmp x ys). cmp y z \<le> 0" by simp
    moreover have "sorted_wrt (\<lambda>a b. cmp a b \<le> 0) (insertSorted cmp x ys)"
      using s by (rule Cons.IH)
    ultimately show ?thesis using False by simp
  qed
qed

lemma set_sortWith [simp]: "set (sortWith cmp xs) = set xs"
  unfolding sortWith_def by (induction xs) auto

lemma distinct_sortWith: "distinct xs \<Longrightarrow> distinct (sortWith cmp xs)"
  unfolding sortWith_def
proof (induction xs)
  case Nil
  then show ?case by simp
next
  case (Cons x xs)
  then have "x \<notin> set (foldr (insertSorted cmp) xs [])"
    using set_sortWith [of cmp xs] by (simp add: sortWith_def)
  with Cons show ?case by (simp add: distinct_insertSorted)
qed

lemma sorted_sortWith:
  assumes "\<forall>a b. cmp a b \<le> 0 \<or> cmp b a \<le> 0"
    and "\<forall>a b c. cmp a b \<le> 0 \<and> cmp b c \<le> 0 \<longrightarrow> cmp a c \<le> 0"
  shows "sorted_wrt (\<lambda>a b. cmp a b \<le> 0) (sortWith cmp xs)"
  unfolding sortWith_def
  by (induction xs) (simp_all add: sorted_insertSorted [OF assms])

lemma filter_sameRank_insertSorted:
  assumes trans: "\<forall>a b c. cmp a b \<le> 0 \<and> cmp b c \<le> 0 \<longrightarrow> cmp a c \<le> 0"
  shows "filter (sameRank cmp z) (insertSorted cmp x xs)
       = (if sameRank cmp z x then x # filter (sameRank cmp z) xs
          else filter (sameRank cmp z) xs)"
proof (induction xs)
  case Nil
  then show ?case by simp
next
  case (Cons y ys)
  show ?case
  proof (cases "cmp x y \<le> 0")
    case True
    then show ?thesis by simp
  next
    case False
    have "\<not> sameRank cmp z y" if "sameRank cmp z x"
    proof
      assume "sameRank cmp z y"
      with that have "cmp x z \<le> 0" "cmp z y \<le> 0" by (simp_all add: sameRank_def)
      with trans have "cmp x y \<le> 0" by blast
      with False show False by simp
    qed
    with False Cons.IH show ?thesis by simp
  qed
qed

lemma filter_sameRank_sortWith:
  assumes "\<forall>a b c. cmp a b \<le> 0 \<and> cmp b c \<le> 0 \<longrightarrow> cmp a c \<le> 0"
  shows "filter (sameRank cmp z) (sortWith cmp xs) = filter (sameRank cmp z) xs"
  unfolding sortWith_def
  by (induction xs) (simp_all add: filter_sameRank_insertSorted [OF assms])

lemma set_buildFormats:
  "set (buildFormats cmp data)
     = {toLowerCase (trim f) | f. Some f \<in> format ` set data \<and> trim f \<noteq> []}"
proof -
  have "set (buildFormats cmp data) = toLowerCase ` {v \<in> formatValue ` set data. v \<noteq> []}"
    unfolding buildFormats_def by simp
  also have "{v \<in> formatValue ` set data. v \<noteq> []}
      = {trim f | f. Some f \<in> format ` set data \<and> trim f \<noteq> []}"
  proof (intro set_eqI iffI)
    fix v
    assume "v \<in> {v \<in> formatValue ` set data. v \<noteq> []}"
    then obtain a where a: "a \<in> set data" "v = formatValue a" "v \<noteq> []" by blast
    then obtain f where "format a = Some f" "v = trim f"
      by (cases "format a") (simp_all add: formatValue_def)
    with a show "v \<in> {trim f | f. Some f \<in> format ` set data \<and> trim f \<noteq> []}"
      by force
  next
    fix v
    assume "v \<in> {trim f | f. Some f \<in> format ` set data \<and> trim f \<noteq> []}"
    then obtain f a where "v = trim f" "a \<in> set data" "format a = Some f" "trim f \<noteq> []"
      by auto
    then have "v = formatValue a" "v \<noteq> []" by (simp_all add: formatValue_def)
    with \<open>a \<in> set data\<close> show "v \<in> {v \<in> formatValue ` set data. v \<noteq> []}" by blast
  qed
  finally show ?thesis by blast
qed


lemma compareBy_Cons_le:
  "compareBy weight (x # xs) (y # ys) \<le> 0 \<longleftrightarrow>
     weight x < weight y \<or> (weight x = weight y \<and> compareBy weight xs ys \<le> 0)"
  by auto

lemma compareBy_total: "compareBy weight a b \<le> 0 \<or> compareBy weight b a \<le> 0"
proof (induction weight a b rule: compareBy.induct)
  case (4 weight x xs y ys)
  then show ?case
    unfolding compareBy_Cons_le by (metis linorder_neqE_nat)
qed simp_all

lemma compareBy_trans:
  "compareBy weight a b \<le> 0 \<Longrightarrow> compareBy weight b c \<le> 0 \<Longrightarrow> compareBy weight a c \<le> 0"
proof (induction a arbitrary: b c)
  case Nil
  then show ?case by (cases c) simp_all
next
  case (Cons x xs)
  from Cons.prems(1) obtain y ys where b: "b = y # ys" by (cases b) simp_all
  from Cons.prems(2) b obtain z zs where c: "c = z # zs" by (cases c) simp_all
  from Cons.prems b c have
    xy: "weight x < weight y \<or> (weight x = weight y \<and> compareBy weight xs ys \<le> 0)"
    and yz: "weight y < weight z \<or> (weight y = weight z \<and> compareBy weight ys zs \<le> 0)"
    by (simp_all only: compareBy_Cons_le)
  from xy yz Cons.IH [of ys zs] have
    "weight x < weight z \<or> (weight x = weight z \<and> compareBy weight xs zs \<le> 0)"
    by (metis less_trans)
  then show ?case
    unfolding c by (simp only: compareBy_Cons_le)
qed

lemma specFormatQuery_sent:
  "filter (\<lambda>(key, v). v \<noteq> []) (withoutFilter filters ''format'') = specFormatQuery filters"
  unfolding withoutFilter_def specFormatQuery_def
  by (induction filters) auto

lemmas format_eval =
  loadFormats_def buildFormats_def formatValue_def activeFilter_def withoutFilter_def
  fetchAssets_def sortWith_def insertionOrder_def trim_def isWhiteSpace_def
  toLowerCase_def lowerChar_def isUpperCase_def specFormatQuery_def
  collationCompare_def collationWeight_def codeUnitCompare_def


section \<open>Claims on the FacetFilterEngine\<close>

text \<open>
  Claim C7, as the code has it. When no format filter is active, \<open>loadFormats\<close> sets the
  options built from the currently visible assets. When one is active, it asks the
  backend for the assets under every active filter except the format filter; if the
  request succeeds and the effect is still current when the answer arrives, it sets the
  options built from that answer; if the request fails it sets no options at all (the
  empty list); an answer that arrives after the effect was cleaned up is dropped. The
  options built are the trimmed, lowercase, non-empty format strings of the assets, each
  once, in the order of \<^verbatim>\<open>sort\<close> under \<^verbatim>\<open>localeCompare\<close>: for every comparison \<open>cmp\<close> that
  is a total preorder, an earlier option never compares greater than a later one, and
  options that compare equal stay in the order in which they first occur in the assets.
\<close>

theorem format_options:
  assumes "\<forall>a b. cmp a b \<le> 0 \<or> cmp b a \<le> 0"
    and "\<forall>a b c. cmp a b \<le> 0 \<and> cmp b c \<le> 0 \<longrightarrow> cmp a c \<le> 0"
  shows "(\<not> activeFilter filters ''format'' \<longrightarrow>
            loadFormats cmp srv filters assets active = Some (buildFormats cmp assets))
       \<and> (activeFilter filters ''format'' \<longrightarrow>
            loadFormats cmp srv filters assets False = None
          \<and> (failure srv = None \<longrightarrow>
                loadFormats cmp srv filters assets True
                  = Some (buildFormats cmp (respond srv (specFormatQuery filters))))
          \<and> (failure srv \<noteq> None \<longrightarrow> loadFormats cmp srv filters assets True = Some []))
       \<and> set (buildFormats cmp data)
            = {toLowerCase (trim f) | f. Some f \<in> format ` set data \<and> trim f \<noteq> []}
       \<and> distinct (buildFormats cmp data)
       \<and> sorted_wrt (\<lambda>a b. cmp a b \<le> 0) (buildFormats cmp data)
       \<and> (\<forall>z. filter (sameRank cmp z) (buildFormats cmp data)
              = filter (sameRank cmp z)
                  (insertionOrder (map toLowerCase (filter (\<lambda>v. v \<noteq> []) (map formatValue data)))))"
proof -
  have none: "\<not> activeFilter filters ''format'' \<longrightarrow>
      loadFormats cmp srv filters assets active = Some (buildFormats cmp assets)"
    by (simp add: loadFormats_def)
  have q: "fetchAssets srv (withoutFilter filters ''format'')
      = (case failure srv of Some message \<Rightarrow> Inl message
         | None \<Rightarrow> Inr (respond srv (specFormatQuery filters)))"
    unfolding fetchAssets_def by (simp only: specFormatQuery_sent)
  have some: "activeFilter filters ''format'' \<longrightarrow>
            loadFormats cmp srv filters assets False = None
          \<and> (failure srv = None \<longrightarrow>
                loadFormats cmp srv filters assets True
                  = Some (buildFormats cmp (respond srv (specFormatQuery filters))))
          \<and> (failure srv \<noteq> None \<longrightarrow> loadFormats cmp srv filters assets True = Some [])"
    unfolding loadFormats_def q by (cases "failure srv") simp_all
  have d: "distinct (buildFormats cmp data)"
    unfolding buildFormats_def by (intro distinct_sortWith) simp
  have s: "sorted_wrt (\<lambda>a b. cmp a b \<le> 0) (buildFormats cmp data)"
    unfolding buildFormats_def by (rule sorted_sortWith [OF assms])
  have st: "\<forall>z. filter (sameRank cmp z) (buildFormats cmp data)
              = filter (sameRank cmp z)
                  (insertionOrder (map toLowerCase (filter (\<lambda>v. v \<noteq> []) (map formatValue data))))"
    unfolding buildFormats_def by (simp only: filter_sameRank_sortWith [OF assms(2)] simp_thms)
  from none some set_buildFormats [of cmp data] d s st show ?thesis
    by (intro conjI)
qed

theorem format_options_witness:
  "activeFilter [(''q'', []), (''format'', ''jpg''), (''color'', ''#ffffff'')] ''format''
   \<and> loadFormats collationCompare
     \<lparr>failure = None,
      respond = (\<lambda>query. if query = [(''color'', ''#ffffff'')]
         then [\<lparr>asset_id = 1, filename = ''a'', colors = [], format = Some '' PNG''\<rparr>,
               \<lparr>asset_id = 2, filename = ''b'', colors = [], format = Some ''jpg''\<rparr>,
               \<lparr>asset_id = 3, filename = ''c'', colors = [], format = Some ''png ''\<rparr>,
               \<lparr>asset_id = 4, filename = ''d'', colors = [], format = None\<rparr>,
               \<lparr>asset_id = 5, filename = ''e'', colors = [], format = Some ''  ''\<rparr>,
               \<lparr>asset_id = 6, filename = ''f'', colors = [], format = Some ''GIF''\<rparr>]
         else [])\<rparr>
     [(''q'', []), (''format'', ''jpg''), (''color'', ''#ffffff'')]
     [\<lparr>asset_id = 2, filename = ''b'', colors = [], format = Some ''jpg''\<rparr>]
     True
   = Some [''gif'', ''jpg'', ''png'']
   \<and> loadFormats collationCompare
     \<lparr>failure = None, respond = (\<lambda>query. [])\<rparr>
     [(''q'', []), (''format'', []), (''color'', ''#ffffff'')]
     [\<lparr>asset_id = 2, filename = ''b'', colors = [], format = Some ''jpg''\<rparr>,
      \<lparr>asset_id = 7, filename = ''g'', colors = [], format = Some ''JPG''\<rparr>,
      \<lparr>asset_id = 8, filename = ''h'', colors = [], format = Some ''bmp''\<rparr>]
     True
   = Some [''bmp'', ''jpg'']"
proof -
  let ?all = "[\<lparr>asset_id = 1, filename = ''a'', colors = [], format = Some '' PNG''\<rparr>,
               \<lparr>asset_id = 2, filename = ''b'', colors = [], format = Some ''jpg''\<rparr>,
               \<lparr>asset_id = 3, filename = ''c'', colors = [], format = Some ''png ''\<rparr>,
               \<lparr>asset_id = 4, filename = ''d'', colors = [], format = None\<rparr>,
               \<lparr>asset_id = 5, filename = ''e'', colors = [], format = Some ''  ''\<rparr>,
               \<lparr>asset_id = 6, filename = ''f'', colors = [], format = Some ''GIF''\<rparr>]"
  let ?jpg = "[\<lparr>asset_id = 2, filename = ''b'', colors = [], format = Some ''jpg''\<rparr>]"
  let ?S = "\<lparr>failure = None,
      respond = (\<lambda>query. if query = [(''color'', ''#ffffff'')] then ?all else [])\<rparr>"
  let ?filters = "[(''q'', []), (''format'', ''jpg''), (''color'', ''#ffffff'')]"
  let ?S2 = "\<lparr>failure = None, respond = (\<lambda>query. [])\<rparr>"
  let ?filters2 = "[(''q'', []), (''format'', []), (''color'', ''#ffffff'')]"
  let ?visible = "[\<lparr>asset_id = 2, filename = ''b'', colors = [], format = Some ''jpg''\<rparr>,
      \<lparr>asset_id = 7, filename = ''g'', colors = [], format = Some ''JPG''\<rparr>,
      \<lparr>asset_id = 8, filename = ''h'', colors = [], format = Some ''bmp''\<rparr>]"
  have total: "\<forall>a b. collationCompare a b \<le> 0 \<or> collationCompare b a \<le> 0"
    unfolding collationCompare_def by (simp add: compareBy_total)
  have trans: "\<forall>a b c. collationCompare a b \<le> 0 \<and> collationCompare b c \<le> 0
      \<longrightarrow> collationCompare a c \<le> 0"
    unfolding collationCompare_def using compareBy_trans by blast
  have a: "activeFilter ?filters ''format''"
    by (simp add: activeFilter_def)
  have f: "failure ?S = None"
    by simp
  have r: "respond ?S (specFormatQuery ?filters) = ?all"
    by (simp add: specFormatQuery_def)
  have n: "\<not> activeFilter ?filters2 ''format''"
    by (simp add: activeFilter_def)
  have b1: "buildFormats collationCompare ?all = [''gif'', ''jpg'', ''png'']"
    by (simp add: format_eval)
  have b2: "buildFormats collationCompare ?visible = [''bmp'', ''jpg'']"
    by (simp add: format_eval)
  from format_options [OF total trans, where assets = "?jpg" and srv = "?S",
      THEN conjunct2, THEN conjunct1, THEN mp, OF a, THEN conjunct2, THEN conjunct1, THEN mp, OF f]
  have r1: "loadFormats collationCompare ?S ?filters ?jpg True = Some [''gif'', ''jpg'', ''png'']"
    unfolding r b1 .
  from format_options [OF total trans, where assets = "?visible" and srv = "?S2"
      and active = True, THEN conjunct1, THEN mp, OF n]
  have r2: "loadFormats collationCompare ?S2 ?filters2 ?visible True = Some [''bmp'', ''jpg'']"
    unfolding b2 .
  from a r1 r2 show ?thesis by (simp only: simp_thms)
qed

text \<open>
  Claim C7 as stated fails twice. The options are sorted by \<^verbatim>\<open>localeCompare\<close>, which is
  not the lexicographic order of the strings: of the formats \<^verbatim>\<open>a1\<close> and \<^verbatim>\<open>a_\<close> the code
  lists \<^verbatim>\<open>a_\<close> first, and \<^verbatim>\<open>a1\<close> is lexicographically the smaller. And when the request
  for the assets fails, the options are empty although assets match the other filters.
\<close>

theorem format_options_counterexample:
  "loadFormats collationCompare
     \<lparr>failure = None,
      respond = (\<lambda>query. [\<lparr>asset_id = 1, filename = ''a'', colors = [], format = Some ''a1''\<rparr>,
                          \<lparr>asset_id = 2, filename = ''b'', colors = [], format = Some ''a_''\<rparr>])\<rparr>
     [(''format'', ''a1'')]
     [\<lparr>asset_id = 1, filename = ''a'', colors = [], format = Some ''a1''\<rparr>]
     True
   = Some [''a_'', ''a1'']
   \<and> codeUnitCompare ''a1'' ''a_'' = - 1
   \<and> loadFormats collationCompare
     \<lparr>failure = Some ''failed'',
      respond = (\<lambda>query. [\<lparr>asset_id = 1, filename = ''a'', colors = [], format = Some ''a1''\<rparr>,
                          \<lparr>asset_id = 2, filename = ''b'', colors = [], format = Some ''a_''\<rparr>])\<rparr>
     [(''format'', ''a1'')]
     [\<lparr>asset_id = 1, filename = ''a'', colors = [], format = Some ''a1''\<rparr>]
     True
   = Some []"
  by (simp add: format_eval)

end
